theory Spec2Isabelle
  imports Complex_Main "HOL-Library.Multiset"
begin

section \<open>Data model of \<open>KDTree.C\<close>\<close>

text \<open>
  A \<open>scalar\<close> is modelled as a real number (exact arithmetic; rounding is not modelled),
  a \<open>scalarField\<close> as a list of scalars, a \<open>List<scalarField>\<close> as a list of lists.
  A \<open>label\<close> that is an array position or a point index is a natural number: every such
  value of the source is between 0 and the size of an array, and the only sum of two of
  them, \<open>left + right\<close>, is below twice the size of the index array, so the width of a
  \<open>label\<close> is not modelled. The \<open>label\<close> returned by \<open>nearest\<close> is an integer, since it
  can be the sentinel \<open>-1\<close>.

  The header \<open>KDTree.H\<close> is not among the source files modelled. Two constants that it or
  the library behind it declares are therefore parameters of the model: \<open>leafSize\<close> (the
  member \<open>leafSize_\<close>) and \<open>GREAT\<close> (the library's large finite scalar constant).

  An array read \<open>xs ! i\<close> out of range has an unspecified value in HOL and no defined
  behaviour in the source. The theorems about \<open>partitionIndices\<close> and \<open>buildTree\<close> are
  stated for ranges inside the index array whose indices name points that have the axes
  read; the theorems about the queries are stated for an index that the constructor
  returned and a query of length \<open>k\<close>, where every stored index is a position of the
  point list, every point has length \<open>k\<close> and every split axis is below \<open>k\<close> (lemmas
  \<open>KDTree_Inr\<close> and \<open>KDTree_axesBelow\<close>). On these inputs every read is in range.
\<close>

type_synonym scalar = real
type_synonym scalarField = "real list"

text \<open>
  An \<open>autoPtr<Node>\<close> (or the \<open>const Node*\<close> that \<open>nearestSearch\<close> receives) is
  \<open>Null\<close>, a leaf built by \<open>Node(leafInds)\<close>, or an internal node built by
  \<open>Node(pointIndex, axis)\<close> whose children are assigned afterwards. The source tells a leaf
  from an internal node by \<open>leafIndices.empty()\<close>; \<open>buildTree\<close> never builds a leaf with no
  index (lemma \<open>buildTree_invariant\<close> below), so the two constructors are told apart as the
  source does on every tree that construction produces.
\<close>

datatype node =
    Null
  | Leaf (leafIndices: "nat list")
  | Internal (pointIndex: nat) (axis: nat) (left: node) (right: node)

record kdtree =
  root_ptr :: node
  points_list :: "scalarField list"
  k_dim :: nat

text \<open>
  \<open>DimensionMismatch\<close> stands for the two \<open>FatalErrorInFunction ... abort(FatalError)\<close>
  exits. \<open>ModuloByZero\<close> stands for the evaluation of \<open>depth % k_\<close> with \<open>k_ = 0\<close>, which
  has no defined result in C++.
\<close>

datatype error = DimensionMismatch | ModuloByZero

section \<open>partitionIndices\<close>

text \<open>\<open>std::swap(indices[i], indices[j])\<close>.\<close>

definition swapAt :: "nat list \<Rightarrow> nat \<Rightarrow> nat \<Rightarrow> nat list" where
  "swapAt indices i j = indices[i := indices ! j, j := indices ! i]"

text \<open>\<open>points_[idx][axis]\<close>, the key of a point index on an axis.\<close>

definition axisValue :: "scalarField list \<Rightarrow> nat \<Rightarrow> nat \<Rightarrow> scalar" where
  "axisValue pts ax idx = pts ! idx ! ax"

text \<open>
  The inner \<open>for (label i = left; i < right; ++i)\<close> loop, lines 77 to 84. Its state is the
  index array, \<open>i\<close> and \<open>storeIdx\<close>; it returns the array and the final \<open>storeIdx\<close>.
\<close>

function forLoop ::
  "scalarField list \<Rightarrow> nat \<Rightarrow> scalar \<Rightarrow> nat \<Rightarrow> nat \<Rightarrow> nat \<Rightarrow> nat list \<Rightarrow> nat list \<times> nat"
where
  "forLoop pts ax pivotVal rgt i storeIdx indices =
     (if i < rgt then
        (if axisValue pts ax (indices ! i) < pivotVal
         then forLoop pts ax pivotVal rgt (i + 1) (storeIdx + 1) (swapAt indices i storeIdx)
         else forLoop pts ax pivotVal rgt (i + 1) storeIdx indices)
      else (indices, storeIdx))"
  by pat_completeness auto
termination
  by (relation "measure (\<lambda>(pts, ax, pivotVal, rgt, i, storeIdx, indices). rgt - i)") auto

declare forLoop.simps [simp del]

text \<open>
  One iteration of the outer \<open>while (left < right)\<close> loop up to the final swap, lines 69
  to 87: the pivot is the middle element, moved to \<open>right\<close>; the smaller keys are moved to
  the front; the pivot is moved to \<open>storeIdx\<close>.
\<close>

definition partitionPass ::
  "scalarField list \<Rightarrow> nat \<Rightarrow> nat list \<Rightarrow> nat \<Rightarrow> nat \<Rightarrow> nat list \<times> nat"
where
  "partitionPass pts ax indices lft rgt =
     (let mid = (lft + rgt) div 2;
          pivotVal = axisValue pts ax (indices ! mid);
          indices1 = swapAt indices mid rgt;
          (indices2, storeIdx) = forLoop pts ax pivotVal rgt lft lft indices1
      in (swapAt indices2 storeIdx rgt, storeIdx))"

text \<open>
  The inner loop moves \<open>storeIdx\<close> forward by at most one per step, so it ends between
  \<open>left\<close> and \<open>right\<close>. The termination of the outer loop rests on this.
\<close>

lemma forLoop_storeIdx:
  "forLoop pts ax pv rgt i s xs = (ys, s') \<Longrightarrow> s \<le> s' \<and> s' + i \<le> s + max i rgt"
proof (induction pts ax pv rgt i s xs rule: forLoop.induct)
  case (1 pts ax pv rgt i s xs)
  show ?case
  proof (cases "i < rgt")
    case True
    with 1 show ?thesis
      by (auto simp: forLoop.simps[of pts ax pv rgt i s xs] split: if_splits)
  next
    case False
    with 1 show ?thesis by (simp add: forLoop.simps[of pts ax pv rgt i s xs])
  qed
qed

lemma partitionPass_storeIdx:
  assumes "partitionPass pts ax xs lft rgt = (ys, s)" "lft \<le> rgt"
  shows "lft \<le> s \<and> s \<le> rgt"
  using assms forLoop_storeIdx[of pts ax _ rgt lft lft _ _ s]
  by (auto simp: partitionPass_def Let_def split: prod.splits)

text \<open>
  The outer \<open>while (left < right)\<close> loop, lines 67 to 102. \<open>storeIdx - 1\<close> is computed only
  when \<open>k < storeIdx\<close>, so the subtraction on natural numbers is the source's.
\<close>

function whileLoop ::
  "scalarField list \<Rightarrow> nat \<Rightarrow> nat \<Rightarrow> nat list \<Rightarrow> nat \<Rightarrow> nat \<Rightarrow> nat list"
where
  "whileLoop pts ax k indices lft rgt =
     (if lft < rgt then
        (case partitionPass pts ax indices lft rgt of
           (indices', storeIdx) \<Rightarrow>
             if storeIdx = k then indices'
             else if k < storeIdx then whileLoop pts ax k indices' lft (storeIdx - 1)
             else whileLoop pts ax k indices' (storeIdx + 1) rgt)
      else indices)"
  by pat_completeness auto
termination
proof (relation "measure (\<lambda>(pts, ax, k, indices, lft, rgt). rgt - lft)", goal_cases)
  case 1
  show ?case by simp
next
  case (2 pts ax k indices lft rgt indices' storeIdx)
  then show ?case
    using partitionPass_storeIdx[of pts ax indices lft rgt indices' storeIdx] by auto
next
  case (3 pts ax k indices lft rgt indices' storeIdx)
  then show ?case
    using partitionPass_storeIdx[of pts ax indices lft rgt indices' storeIdx] by auto
qed

declare whileLoop.simps [simp del]

text \<open>
  \<open>partitionIndices(indices, start, end, axis, k)\<close>: \<open>left = start\<close>, \<open>right = end - 1\<close>.
  With \<open>end = 0\<close> the source has \<open>right = -1\<close> and the loop does not run; here
  \<open>right = 0\<close> and the loop does not run either, since \<open>left < 0\<close> is false.
\<close>

definition partitionIndices ::
  "scalarField list \<Rightarrow> nat list \<Rightarrow> nat \<Rightarrow> nat \<Rightarrow> nat \<Rightarrow> nat \<Rightarrow> nat list"
where
  "partitionIndices pts indices start end ax k = whileLoop pts ax k indices start (end - 1)"

section \<open>buildTree and the constructor\<close>

text \<open>
  \<open>buildTree(indices, start, end, depth)\<close> mutates the index array it receives by
  reference; the model returns the node together with the array as it is left.
  \<open>count <= 0\<close> is \<open>end \<le> start\<close>. The leaf copies \<open>indices[start + i]\<close> for
  \<open>i < count\<close>. The internal node reads \<open>indices[midIndex]\<close> right after the partition,
  before the recursive calls.
\<close>

function buildTree ::
  "scalarField list \<Rightarrow> nat \<Rightarrow> nat \<Rightarrow> nat list \<Rightarrow> nat \<Rightarrow> nat \<Rightarrow> nat \<Rightarrow> error + (node \<times> nat list)"
where
  "buildTree pts k leafSize indices start end depth =
     (if end \<le> start then Inr (Null, indices)
      else if end - start \<le> leafSize
        then Inr (Leaf (map (\<lambda>i. indices ! (start + i)) [0..<end - start]), indices)
      else if k = 0 then Inl ModuloByZero
      else
        (let ax = depth mod k;
             midIndex = start + (end - start) div 2;
             indices1 = partitionIndices pts indices start end ax midIndex;
             splitIdx = indices1 ! midIndex
         in case buildTree pts k leafSize indices1 start midIndex (depth + 1) of
              Inl e \<Rightarrow> Inl e
            | Inr (l, indices2) \<Rightarrow>
                (case buildTree pts k leafSize indices2 (midIndex + 1) end (depth + 1) of
                   Inl e \<Rightarrow> Inl e
                 | Inr (r, indices3) \<Rightarrow> Inr (Internal splitIdx ax l r, indices3))))"
  by pat_completeness auto
termination
  by (relation "measure (\<lambda>(pts, k, leafSize, indices, start, end, depth). end - start)") auto

declare buildTree.simps [simp del]

text \<open>
  The constructor, lines 11 to 43: \<open>k_\<close> is the length of the first point (0 for no
  point); no point means an empty tree; a point of another length aborts; otherwise the
  tree is built over the index list \<open>[0, ..., N-1]\<close>.
\<close>

definition KDTree :: "nat \<Rightarrow> scalarField list \<Rightarrow> error + kdtree" where
  "KDTree leafSize points =
     (let k = (if points = [] then 0 else length (points ! 0)) in
      if points = [] then Inr \<lparr>root_ptr = Null, points_list = points, k_dim = k\<rparr>
      else if \<exists>p \<in> set points. length p \<noteq> k then Inl DimensionMismatch
      else
        (case buildTree points k leafSize [0..<length points] 0 (length points) 0 of
           Inl e \<Rightarrow> Inl e
         | Inr (t, indices') \<Rightarrow> Inr \<lparr>root_ptr = t, points_list = points, k_dim = k\<rparr>))"

section \<open>Distance and search\<close>

text \<open>\<open>distSqr(a, b)\<close>: the loop over \<open>d < k_\<close> adding \<open>diff*diff\<close> to \<open>sum\<close>.\<close>

definition distSqr :: "nat \<Rightarrow> scalarField \<Rightarrow> scalarField \<Rightarrow> scalar" where
  "distSqr k a b = fold (\<lambda>d sum. sum + (a ! d - b ! d) * (a ! d - b ! d)) [0..<k] 0"

text \<open>
  The candidate test that \<open>nearestSearch\<close> applies to every leaf member (lines 197 to
  204) and to the split point of an internal node (lines 212 to 219); the pair is
  \<open>(bestIndex, bestDistSqr)\<close>.
\<close>

definition candidate ::
  "scalarField list \<Rightarrow> nat \<Rightarrow> scalarField \<Rightarrow> nat \<Rightarrow> int \<times> scalar \<Rightarrow> int \<times> scalar"
where
  "candidate pts k query idx best =
     (let d2 = distSqr k (pts ! idx) query
      in if d2 < snd best then (int idx, d2) else best)"

text \<open>
  \<open>nearestSearch(node, query, bestIndex, bestDistSqr)\<close>; the two reference parameters are
  the pair passed in and returned. A null near or far branch is not visited.
\<close>

fun nearestSearch ::
  "scalarField list \<Rightarrow> nat \<Rightarrow> node \<Rightarrow> scalarField \<Rightarrow> int \<times> scalar \<Rightarrow> int \<times> scalar"
where
  "nearestSearch pts k Null query best = best"
| "nearestSearch pts k (Leaf inds) query best = fold (candidate pts k query) inds best"
| "nearestSearch pts k (Internal idx ax l r) query best =
     (let best1 = candidate pts k query idx best;
          diff = query ! ax - pts ! idx ! ax;
          nearBranch = (if diff < 0 then l else r);
          farBranch = (if diff < 0 then r else l);
          best2 = (if nearBranch \<noteq> Null then nearestSearch pts k nearBranch query best1
                   else best1)
      in if farBranch \<noteq> Null \<and> diff * diff < snd best2
         then nearestSearch pts k farBranch query best2
         else best2)"

text \<open>The two public queries, lines 249 to 293; \<open>GREAT\<close> is the first parameter.\<close>

definition nearest :: "scalar \<Rightarrow> kdtree \<Rightarrow> scalarField \<Rightarrow> error + int" where
  "nearest GREAT t query =
     (if root_ptr t = Null then Inr (- 1)
      else if length query \<noteq> k_dim t then Inl DimensionMismatch
      else Inr (fst (nearestSearch (points_list t) (k_dim t) (root_ptr t) query (- 1, GREAT))))"

definition nearestDistSqr :: "scalar \<Rightarrow> kdtree \<Rightarrow> scalarField \<Rightarrow> error + scalar" where
  "nearestDistSqr GREAT t query =
     (if root_ptr t = Null then Inr GREAT
      else if length query \<noteq> k_dim t then Inl DimensionMismatch
      else Inr (snd (nearestSearch (points_list t) (k_dim t) (root_ptr t) query (- 1, GREAT))))"

section \<open>The exhaustive scan of \<open>testKDTree.C\<close>\<close>

text \<open>
  \<open>bruteNearest(pts, q, bestD2)\<close>, lines 94 to 109: the distance is summed over
  \<open>d < q.size()\<close>; the result is the pair of the returned index and \<open>bestD2\<close>.
\<close>

definition bruteNearest :: "scalar \<Rightarrow> scalarField list \<Rightarrow> scalarField \<Rightarrow> int \<times> scalar" where
  "bruteNearest GREAT pts q =
     fold (\<lambda>i (idx, bestD2).
             let d2 = fold (\<lambda>d d2. d2 + (pts ! i ! d - q ! d) * (pts ! i ! d - q ! d))
                           [0..<length q] 0
             in if d2 < bestD2 then (int i, d2) else (idx, bestD2))
          [0..<length pts] (- 1, GREAT)"

section \<open>Properties of partitionIndices\<close>

text \<open>
  \<open>slice xs a b\<close> is the content of the half-open range \<open>[a, b)\<close> of an array.
  \<open>permutedWithin xs ys a b\<close> relates an array before and after an in-place operation
  that only swaps elements of the range \<open>[a, b)\<close>: same length, same elements with
  their multiplicities, and every position outside the range unchanged.
\<close>

definition slice :: "'a list \<Rightarrow> nat \<Rightarrow> nat \<Rightarrow> 'a list" where
  "slice xs a b = take (b - a) (drop a xs)"

definition permutedWithin :: "nat list \<Rightarrow> nat list \<Rightarrow> nat \<Rightarrow> nat \<Rightarrow> bool" where
  "permutedWithin xs ys a b \<longleftrightarrow>
     length ys = length xs \<and> mset ys = mset xs \<and>
     (\<forall>i < length xs. i < a \<or> b \<le> i \<longrightarrow> ys ! i = xs ! i)"

lemma length_swapAt [simp]: "length (swapAt xs i j) = length xs"
  by (simp add: swapAt_def)

lemma nth_swapAt:
  "i < length xs \<Longrightarrow> j < length xs \<Longrightarrow> n < length xs \<Longrightarrow>
   swapAt xs i j ! n = (if n = j then xs ! i else if n = i then xs ! j else xs ! n)"
  by (simp add: swapAt_def nth_list_update)

lemma mset_swapAt: "i < length xs \<Longrightarrow> j < length xs \<Longrightarrow> mset (swapAt xs i j) = mset xs"
  by (simp add: swapAt_def mset_swap)

lemma permutedWithin_refl: "permutedWithin xs xs a b"
  by (simp add: permutedWithin_def)

lemma permutedWithin_trans:
  "permutedWithin xs ys a b \<Longrightarrow> permutedWithin ys zs a b \<Longrightarrow> permutedWithin xs zs a b"
  by (simp add: permutedWithin_def)

lemma permutedWithin_mono:
  "permutedWithin xs ys a b \<Longrightarrow> a' \<le> a \<Longrightarrow> b \<le> b' \<Longrightarrow> permutedWithin xs ys a' b'"
  by (auto simp: permutedWithin_def)

lemma permutedWithin_swapAt:
  "a \<le> i \<Longrightarrow> i < b \<Longrightarrow> a \<le> j \<Longrightarrow> j < b \<Longrightarrow> b \<le> length xs \<Longrightarrow>
   permutedWithin xs (swapAt xs i j) a b"
  by (auto simp: permutedWithin_def mset_swapAt nth_swapAt)

lemma slice_decomp:
  "a \<le> b \<Longrightarrow> b \<le> length xs \<Longrightarrow> xs = take a xs @ slice xs a b @ drop b xs"
proof -
  assume ab: "a \<le> b" "b \<le> length xs"
  have "drop (b - a) (drop a xs) = drop b xs" using ab by simp
  then have "slice xs a b @ drop b xs = drop a xs"
    unfolding slice_def using append_take_drop_id[of "b - a" "drop a xs"] by simp
  then show ?thesis by simp
qed

lemma length_slice [simp]: "b \<le> length xs \<Longrightarrow> length (slice xs a b) = b - a"
  by (simp add: slice_def)

lemma nth_slice: "b \<le> length xs \<Longrightarrow> i < b - a \<Longrightarrow> slice xs a b ! i = xs ! (a + i)"
  by (simp add: slice_def)

lemma set_slice: "b \<le> length xs \<Longrightarrow> set (slice xs a b) = {xs ! i | i. a \<le> i \<and> i < b}"
proof (intro equalityI subsetI)
  fix x assume b: "b \<le> length xs" and "x \<in> set (slice xs a b)"
  then obtain i where i: "i < b - a" "x = slice xs a b ! i"
    by (auto simp: in_set_conv_nth)
  then have "x = xs ! (a + i)" using b by (simp add: nth_slice)
  with i show "x \<in> {xs ! i | i. a \<le> i \<and> i < b}"
    by (intro CollectI exI[of _ "a + i"]) auto
next
  fix x assume b: "b \<le> length xs" and "x \<in> {xs ! i | i. a \<le> i \<and> i < b}"
  then obtain i where i: "x = xs ! i" "a \<le> i" "i < b" by blast
  then have "slice xs a b ! (i - a) = x" using b by (simp add: nth_slice)
  moreover have "i - a < length (slice xs a b)" using i b by simp
  ultimately show "x \<in> set (slice xs a b)" using nth_mem by blast
qed

lemma permutedWithin_slice:
  assumes "permutedWithin xs ys a b" "a \<le> b" "b \<le> length xs"
  shows "mset (slice ys a b) = mset (slice xs a b)"
proof -
  have len: "length ys = length xs" and ms: "mset ys = mset xs"
    and out: "\<And>i. i < length xs \<Longrightarrow> i < a \<or> b \<le> i \<Longrightarrow> ys ! i = xs ! i"
    using assms(1) by (auto simp: permutedWithin_def)
  have t: "take a ys = take a xs"
    using len out assms(2,3) by (intro nth_equalityI) auto
  have d: "drop b ys = drop b xs"
    using len out assms(2,3) by (intro nth_equalityI) auto
  have "mset xs = mset (take a xs) + mset (slice xs a b) + mset (drop b xs)"
    using slice_decomp[OF assms(2,3)] by (metis mset_append union_assoc)
  moreover have "mset ys = mset (take a ys) + mset (slice ys a b) + mset (drop b ys)"
    using slice_decomp[of a b ys] assms(2,3) len by (metis mset_append union_assoc)
  ultimately show ?thesis using ms t d by simp
qed

lemma permutedWithin_nth:
  assumes "permutedWithin xs ys a b" "b \<le> length xs" "a \<le> j" "j < b"
  shows "\<exists>j'. a \<le> j' \<and> j' < b \<and> ys ! j = xs ! j'"
proof -
  have len: "length ys = length xs" using assms(1) by (simp add: permutedWithin_def)
  have "set (slice ys a b) = set (slice xs a b)"
    using permutedWithin_slice[OF assms(1) _ assms(2)] assms(3,4) by (metis less_imp_le_nat le_trans mset_eq_setD)
  moreover have "ys ! j \<in> set (slice ys a b)"
    using assms len by (auto simp: set_slice)
  ultimately have "ys ! j \<in> {xs ! i | i. a \<le> i \<and> i < b}"
    using assms(2) by (simp add: set_slice)
  then show ?thesis by blast
qed

lemma forLoop_partition:
  assumes "forLoop pts ax pv rgt i s xs = (ys, s')"
    and "lft \<le> s" "s \<le> i" "i \<le> rgt" "rgt \<le> length xs"
    and "\<forall>j. lft \<le> j \<and> j < s \<longrightarrow> axisValue pts ax (xs ! j) < pv"
    and "\<forall>j. s \<le> j \<and> j < i \<longrightarrow> pv \<le> axisValue pts ax (xs ! j)"
  shows "permutedWithin xs ys lft rgt \<and>
         (\<forall>j. lft \<le> j \<and> j < s' \<longrightarrow> axisValue pts ax (ys ! j) < pv) \<and>
         (\<forall>j. s' \<le> j \<and> j < rgt \<longrightarrow> pv \<le> axisValue pts ax (ys ! j))"
  using assms
proof (induction pts ax pv rgt i s xs rule: forLoop.induct)
  case (1 pts ax pv rgt i s xs)
  show ?case
  proof (cases "i < rgt")
    case False
    with 1 show ?thesis
      by (auto simp: forLoop.simps[of pts ax pv rgt i s xs] permutedWithin_refl)
  next
    case True
    show ?thesis
    proof (cases "axisValue pts ax (xs ! i) < pv")
      case less: True
      let ?xs' = "swapAt xs i s"
      have run: "forLoop pts ax pv rgt (i + 1) (s + 1) ?xs' = (ys, s')"
        using "1.prems"(1) True less by (simp add: forLoop.simps[of pts ax pv rgt i s xs])
      have nth': "\<And>n. n < length xs \<Longrightarrow>
          ?xs' ! n = (if n = s then xs ! i else if n = i then xs ! s else xs ! n)"
        using True "1.prems"(3,5) by (simp add: nth_swapAt)
      have a: "\<forall>j. lft \<le> j \<and> j < s + 1 \<longrightarrow> axisValue pts ax (?xs' ! j) < pv"
        using "1.prems" True less nth' by auto
      have b: "\<forall>j. s + 1 \<le> j \<and> j < i + 1 \<longrightarrow> pv \<le> axisValue pts ax (?xs' ! j)"
        using "1.prems" True less nth' by auto
      have ih: "permutedWithin ?xs' ys lft rgt \<and>
         (\<forall>j. lft \<le> j \<and> j < s' \<longrightarrow> axisValue pts ax (ys ! j) < pv) \<and>
         (\<forall>j. s' \<le> j \<and> j < rgt \<longrightarrow> pv \<le> axisValue pts ax (ys ! j))"
        using "1.IH"(1)[OF True less run _ _ _ _ a b] "1.prems"(2,3,5) True by simp
      have "permutedWithin xs ?xs' lft rgt"
        using "1.prems"(2,3,5) True by (intro permutedWithin_swapAt) auto
      with ih show ?thesis using permutedWithin_trans by blast
    next
      case ge: False
      have run: "forLoop pts ax pv rgt (i + 1) s xs = (ys, s')"
        using "1.prems"(1) True ge by (simp add: forLoop.simps[of pts ax pv rgt i s xs])
      have b: "\<forall>j. s \<le> j \<and> j < i + 1 \<longrightarrow> pv \<le> axisValue pts ax (xs ! j)"
        using "1.prems"(7) ge by (auto simp: less_Suc_eq)
      show ?thesis
        using "1.IH"(2)[OF True ge run "1.prems"(2) _ _ "1.prems"(5,6) b] "1.prems"(3) True by simp
    qed
  qed
qed


lemma partitionPass_partition:
  assumes "partitionPass pts ax xs lft rgt = (ys, s)" "lft \<le> rgt" "rgt < length xs"
  shows "permutedWithin xs ys lft (rgt + 1) \<and> lft \<le> s \<and> s \<le> rgt \<and>
         (\<forall>j. lft \<le> j \<and> j < s \<longrightarrow> axisValue pts ax (ys ! j) < axisValue pts ax (ys ! s)) \<and>
         (\<forall>j. s < j \<and> j \<le> rgt \<longrightarrow> axisValue pts ax (ys ! s) \<le> axisValue pts ax (ys ! j))"
proof -
  define mid where "mid = (lft + rgt) div 2"
  define pv where "pv = axisValue pts ax (xs ! mid)"
  define xs1 where "xs1 = swapAt xs mid rgt"
  obtain xs2 s2 where fl: "forLoop pts ax pv rgt lft lft xs1 = (xs2, s2)"
    by (cases "forLoop pts ax pv rgt lft lft xs1") auto
  have res: "ys = swapAt xs2 s rgt" "s2 = s"
    using assms(1) fl by (auto simp: partitionPass_def Let_def mid_def pv_def xs1_def)
  have mid: "lft \<le> mid" "mid \<le> rgt" using assms(2) by (auto simp: mid_def)
  have len1: "length xs1 = length xs" by (simp add: xs1_def)
  have p1: "permutedWithin xs xs1 lft (rgt + 1)"
    unfolding xs1_def using mid assms by (intro permutedWithin_swapAt) auto
  have piv1: "xs1 ! rgt = xs ! mid"
    using mid assms by (simp add: xs1_def nth_swapAt)
  have fp: "permutedWithin xs1 xs2 lft rgt \<and>
         (\<forall>j. lft \<le> j \<and> j < s \<longrightarrow> axisValue pts ax (xs2 ! j) < pv) \<and>
         (\<forall>j. s \<le> j \<and> j < rgt \<longrightarrow> pv \<le> axisValue pts ax (xs2 ! j))"
    using forLoop_partition[OF fl, of lft] assms(2,3) len1 res(2) by simp
  have bounds: "lft \<le> s" "s \<le> rgt"
    using partitionPass_storeIdx[OF assms(1,2)] by auto
  have len2: "length xs2 = length xs"
    using fp len1 by (simp add: permutedWithin_def)
  have piv2: "xs2 ! rgt = xs ! mid"
    using fp piv1 assms(3) len1 by (simp add: permutedWithin_def)
  have nth3: "\<And>n. n < length xs \<Longrightarrow>
      ys ! n = (if n = rgt then xs2 ! s else if n = s then xs2 ! rgt else xs2 ! n)"
    using bounds assms(3) len2 by (simp add: res(1) nth_swapAt)
  have p3: "permutedWithin xs2 ys lft (rgt + 1)"
    unfolding res(1) using bounds assms(3) len2 by (intro permutedWithin_swapAt) auto
  have key_s: "axisValue pts ax (ys ! s) = pv"
    using nth3[of s] bounds assms(3) piv2 by (auto simp: pv_def)
  have lo: "\<forall>j. lft \<le> j \<and> j < s \<longrightarrow> axisValue pts ax (ys ! j) < axisValue pts ax (ys ! s)"
    using fp nth3 bounds assms(3) key_s by auto
  have hi: "\<forall>j. s < j \<and> j \<le> rgt \<longrightarrow> axisValue pts ax (ys ! s) \<le> axisValue pts ax (ys ! j)"
  proof (intro allI impI)
    fix j assume j: "s < j \<and> j \<le> rgt"
    show "axisValue pts ax (ys ! s) \<le> axisValue pts ax (ys ! j)"
    proof (cases "j = rgt")
      case True
      then have "ys ! j = xs2 ! s" using nth3[of rgt] assms(3) by simp
      moreover have "pv \<le> axisValue pts ax (xs2 ! s)" using fp j by auto
      ultimately show ?thesis using key_s by simp
    next
      case False
      then have "ys ! j = xs2 ! j" using nth3[of j] j assms(3) by auto
      moreover have "pv \<le> axisValue pts ax (xs2 ! j)" using fp j False by auto
      ultimately show ?thesis using key_s by simp
    qed
  qed
  have "permutedWithin xs ys lft (rgt + 1)"
    using p1 p3 fp permutedWithin_trans permutedWithin_mono[of xs1 xs2 lft rgt lft "rgt + 1"]
    by (meson le_add1 le_refl)
  with bounds lo hi show ?thesis by simp
qed

lemma whileLoop_select:
  assumes "lft \<le> k" "k \<le> rgt" "rgt < length xs"
  shows "permutedWithin xs (whileLoop pts ax k xs lft rgt) lft (rgt + 1) \<and>
         (\<forall>j. lft \<le> j \<and> j < k \<longrightarrow>
            axisValue pts ax (whileLoop pts ax k xs lft rgt ! j)
              \<le> axisValue pts ax (whileLoop pts ax k xs lft rgt ! k)) \<and>
         (\<forall>j. k < j \<and> j \<le> rgt \<longrightarrow>
            axisValue pts ax (whileLoop pts ax k xs lft rgt ! k)
              \<le> axisValue pts ax (whileLoop pts ax k xs lft rgt ! j))"
  using assms
proof (induction pts ax k xs lft rgt rule: whileLoop.induct)
  case (1 pts ax k xs lft rgt)
  let ?key = "axisValue pts ax"
  show ?case
  proof (cases "lft < rgt")
    case False
    then have "whileLoop pts ax k xs lft rgt = xs"
      by (simp add: whileLoop.simps[of pts ax k xs lft rgt])
    moreover have "lft = k" "rgt = k" using False "1.prems" by auto
    ultimately show ?thesis by (auto simp: permutedWithin_refl)
  next
    case True
    obtain ys s where pp: "partitionPass pts ax xs lft rgt = (ys, s)"
      by (cases "partitionPass pts ax xs lft rgt") auto
    have P: "permutedWithin xs ys lft (rgt + 1)" "lft \<le> s" "s \<le> rgt"
      "\<forall>j. lft \<le> j \<and> j < s \<longrightarrow> ?key (ys ! j) < ?key (ys ! s)"
      "\<forall>j. s < j \<and> j \<le> rgt \<longrightarrow> ?key (ys ! s) \<le> ?key (ys ! j)"
      using partitionPass_partition[OF pp] True "1.prems"(3) by auto
    have leny: "length ys = length xs" using P(1) by (simp add: permutedWithin_def)
    show ?thesis
    proof (cases "s = k")
      case eq: True
      then have "whileLoop pts ax k xs lft rgt = ys"
        using True pp by (simp add: whileLoop.simps[of pts ax k xs lft rgt])
      then show ?thesis using P eq by (auto intro: less_imp_le)
    next
      case ne: False
      show ?thesis
      proof (cases "k < s")
        case lt: True
        let ?zs = "whileLoop pts ax k ys lft (s - 1)"
        have w: "whileLoop pts ax k xs lft rgt = ?zs"
          using True pp ne lt by (simp add: whileLoop.simps[of pts ax k xs lft rgt])
        have ih: "permutedWithin ys ?zs lft (s - 1 + 1)"
          "\<forall>j. lft \<le> j \<and> j < k \<longrightarrow> ?key (?zs ! j) \<le> ?key (?zs ! k)"
          "\<forall>j. k < j \<and> j \<le> s - 1 \<longrightarrow> ?key (?zs ! k) \<le> ?key (?zs ! j)"
          using "1.IH"(1)[OF True pp[symmetric] ne lt "1.prems"(1)] lt P(3) "1.prems"(3) leny
          by auto
        have pz: "permutedWithin ys ?zs lft s" using ih(1) lt by simp
        have same: "\<And>j. s \<le> j \<Longrightarrow> j < length xs \<Longrightarrow> ?zs ! j = ys ! j"
          using pz leny by (auto simp: permutedWithin_def)
        obtain k' where k': "lft \<le> k'" "k' < s" "?zs ! k = ys ! k'"
          using permutedWithin_nth[OF pz _ "1.prems"(1) lt] P(3) "1.prems"(3) leny by auto
        have hi: "\<forall>j. k < j \<and> j \<le> rgt \<longrightarrow> ?key (?zs ! k) \<le> ?key (?zs ! j)"
        proof (intro allI impI)
          fix j assume j: "k < j \<and> j \<le> rgt"
          show "?key (?zs ! k) \<le> ?key (?zs ! j)"
          proof (cases "j < s")
            case True
            then show ?thesis using ih(3) j by auto
          next
            case False
            then have "?zs ! j = ys ! j" using same[of j] j "1.prems"(3) by auto
            moreover have "?key (ys ! s) \<le> ?key (ys ! j)"
              using P(5) False j by (cases "j = s") auto
            moreover have "?key (ys ! k') < ?key (ys ! s)" using P(4) k' by auto
            ultimately show ?thesis using k'(3) by simp
          qed
        qed
        have "permutedWithin xs ?zs lft (rgt + 1)"
          using P(1) permutedWithin_mono[OF pz, of lft "rgt + 1"] P(3) permutedWithin_trans
          by (meson le_add1 le_refl le_trans)
        then show ?thesis using w ih(2) hi by simp
      next
        case gt: False
        then have gt': "s < k" using ne by simp
        let ?zs = "whileLoop pts ax k ys (s + 1) rgt"
        have w: "whileLoop pts ax k xs lft rgt = ?zs"
          using True pp ne gt by (simp add: whileLoop.simps[of pts ax k xs lft rgt])
        have ih: "permutedWithin ys ?zs (s + 1) (rgt + 1)"
          "\<forall>j. s + 1 \<le> j \<and> j < k \<longrightarrow> ?key (?zs ! j) \<le> ?key (?zs ! k)"
          "\<forall>j. k < j \<and> j \<le> rgt \<longrightarrow> ?key (?zs ! k) \<le> ?key (?zs ! j)"
          using "1.IH"(2)[OF True pp[symmetric] ne gt _ "1.prems"(2)] gt' "1.prems"(3) leny
          by auto
        have same: "\<And>j. j \<le> s \<Longrightarrow> ?zs ! j = ys ! j"
          using ih(1) leny P(3) "1.prems"(3) by (auto simp: permutedWithin_def)
        obtain k' where k': "s + 1 \<le> k'" "k' < rgt + 1" "?zs ! k = ys ! k'"
          using permutedWithin_nth[OF ih(1), of k] gt' "1.prems"(2,3) leny by auto
        have lo: "\<forall>j. lft \<le> j \<and> j < k \<longrightarrow> ?key (?zs ! j) \<le> ?key (?zs ! k)"
        proof (intro allI impI)
          fix j assume j: "lft \<le> j \<and> j < k"
          show "?key (?zs ! j) \<le> ?key (?zs ! k)"
          proof (cases "s < j")
            case True
            then show ?thesis using ih(2) j by auto
          next
            case False
            then have "?zs ! j = ys ! j" using same[of j] by auto
            moreover have "?key (ys ! j) \<le> ?key (ys ! s)"
              using P(4) False j by (cases "j = s") auto
            moreover have "?key (ys ! s) \<le> ?key (ys ! k')" using P(5) k' by auto
            ultimately show ?thesis using k'(3) by simp
          qed
        qed
        have "permutedWithin xs ?zs lft (rgt + 1)"
          using P(1) permutedWithin_mono[OF ih(1), of lft "rgt + 1"] P(2) permutedWithin_trans
          by (meson le_add1 le_refl le_trans)
        then show ?thesis using w lo ih(3) by simp
      qed
    qed
  qed
qed

lemma nth_sort_partitioned:
  fixes ks ls :: "real list"
  assumes m: "m < length ks"
    and lo: "\<forall>i. i < m \<longrightarrow> ks ! i \<le> ks ! m"
    and hi: "\<forall>j. m < j \<and> j < length ks \<longrightarrow> ks ! m \<le> ks ! j"
    and ms: "mset ks = mset ls"
  shows "sort ls ! m = ks ! m"
proof -
  let ?A = "take m ks" and ?B = "drop (Suc m) ks" and ?x = "ks ! m"
  have ks: "ks = ?A @ ?x # ?B" using m by (rule id_take_nth_drop)
  have A: "\<forall>a \<in> set ?A. a \<le> ?x"
    using lo m by (auto simp: in_set_conv_nth)
  have B: "\<forall>b \<in> set ?B. ?x \<le> b"
  proof
    fix b assume "b \<in> set ?B"
    then obtain i where "i < length ?B" "b = ?B ! i" by (auto simp: in_set_conv_nth)
    then have "b = ks ! (Suc m + i)" "Suc m + i < length ks" using m by auto
    then show "?x \<le> b" using hi by auto
  qed
  have srt: "sorted (sort ?A @ ?x # sort ?B)"
    using A B by (fastforce simp: sorted_append)
  have "mset (sort ?A @ ?x # sort ?B) = mset (?A @ ?x # ?B)" by simp
  also have "\<dots> = mset ls" using ks ms by simp
  finally have "sort ls = sort ?A @ ?x # sort ?B"
    using srt by (metis properties_for_sort)
  moreover have "length (sort ?A) = m" using m by simp
  ultimately show ?thesis by (simp add: nth_append)
qed

lemma partitionIndices_select:
  fixes pts ax
  assumes "start \<le> mid" "mid < end" "end \<le> length indices"
  defines "out \<equiv> partitionIndices pts indices start end ax mid"
  shows "permutedWithin indices out start end"
    and "\<forall>i. start \<le> i \<and> i < mid \<longrightarrow> axisValue pts ax (out ! i) \<le> axisValue pts ax (out ! mid)"
    and "\<forall>j. mid < j \<and> j < end \<longrightarrow> axisValue pts ax (out ! mid) \<le> axisValue pts ax (out ! j)"
proof -
  have e: "end - 1 + 1 = end" "mid \<le> end - 1" "end - 1 < length indices"
    using assms(1-3) by auto
  note w = whileLoop_select[OF assms(1) e(2,3), of pts ax, folded partitionIndices_def out_def]
  show "permutedWithin indices out start end" using w e(1) by simp
  show "\<forall>i. start \<le> i \<and> i < mid \<longrightarrow> axisValue pts ax (out ! i) \<le> axisValue pts ax (out ! mid)"
    using w by simp
  show "\<forall>j. mid < j \<and> j < end \<longrightarrow> axisValue pts ax (out ! mid) \<le> axisValue pts ax (out ! j)"
    using w by auto
qed

lemma partitionIndices_order_statistic:
  assumes "start \<le> mid" "mid < end" "end \<le> length indices"
  shows "axisValue pts ax (partitionIndices pts indices start end ax mid ! mid) =
         sort (map (axisValue pts ax) (slice indices start end)) ! (mid - start)"
proof -
  define out where "out = partitionIndices pts indices start end ax mid"
  note sel = partitionIndices_select[OF assms, of pts ax, folded out_def]
  have len: "length out = length indices" using sel(1) by (simp add: permutedWithin_def)
  let ?ks = "map (axisValue pts ax) (slice out start end)"
  let ?ls = "map (axisValue pts ax) (slice indices start end)"
  have nth: "\<And>i. i < end - start \<Longrightarrow> ?ks ! i = axisValue pts ax (out ! (start + i))"
    using assms(3) len by (simp add: nth_slice)
  have "mset (slice out start end) = mset (slice indices start end)"
    using permutedWithin_slice[OF sel(1)] assms by simp
  then have ms: "mset ?ks = mset ?ls" by (metis mset_map)
  have m: "mid - start < length ?ks" using assms len by simp
  have lo: "\<forall>i. i < mid - start \<longrightarrow> ?ks ! i \<le> ?ks ! (mid - start)"
    using sel(2) nth assms by auto
  have hi: "\<forall>j. mid - start < j \<and> j < length ?ks \<longrightarrow> ?ks ! (mid - start) \<le> ?ks ! j"
  proof (intro allI impI)
    fix j assume j: "mid - start < j \<and> j < length ?ks"
    then have "j < end - start" using assms len by simp
    moreover have "mid < start + j" "start + j < end" using j assms len by auto
    ultimately show "?ks ! (mid - start) \<le> ?ks ! j"
      using sel(3) nth[of j] nth[of "mid - start"] assms by auto
  qed
  have "sort ?ls ! (mid - start) = ?ks ! (mid - start)"
    by (rule nth_sort_partitioned[OF m lo hi ms])
  then show ?thesis using nth[of "mid - start"] assms by (simp add: out_def)
qed

text \<open>
  Claim C3. For an index array, a range \<open>[start, end)\<close> inside it, an axis and a rank
  position \<open>mid\<close> of the range, where every index of the range names a point that has the
  axis: after \<open>partitionIndices\<close> the key at position \<open>mid\<close> is the order statistic of that
  rank among the keys of the range, every position of the range before \<open>mid\<close> holds a key
  at most it, every position of the range after \<open>mid\<close> holds a key at least it, the
  positions outside the range are unchanged, and the array is a permutation of what it
  was.
\<close>

theorem partitionIndices_spec:
  assumes "start \<le> mid" "mid < end" "end \<le> length indices"
    and "\<forall>i \<in> set (slice indices start end). i < length pts \<and> ax < length (pts ! i)"
    and "out = partitionIndices pts indices start end ax mid"
  shows "axisValue pts ax (out ! mid) =
           sort (map (axisValue pts ax) (slice indices start end)) ! (mid - start) \<and>
         (\<forall>i. start \<le> i \<and> i < mid \<longrightarrow> axisValue pts ax (out ! i) \<le> axisValue pts ax (out ! mid)) \<and>
         (\<forall>j. mid < j \<and> j < end \<longrightarrow> axisValue pts ax (out ! mid) \<le> axisValue pts ax (out ! j)) \<and>
         length out = length indices \<and>
         (\<forall>i. i < length indices \<and> (i < start \<or> end \<le> i) \<longrightarrow> out ! i = indices ! i) \<and>
         mset out = mset indices"
proof -
  note sel = partitionIndices_select[OF assms(1-3), of pts ax, folded assms(5)]
  have "axisValue pts ax (out ! mid) =
           sort (map (axisValue pts ax) (slice indices start end)) ! (mid - start)"
    unfolding assms(5) by (rule partitionIndices_order_statistic[OF assms(1-3)])
  moreover have "length out = length indices" "mset out = mset indices"
    "\<forall>i. i < length indices \<and> (i < start \<or> end \<le> i) \<longrightarrow> out ! i = indices ! i"
    using sel(1) by (auto simp: permutedWithin_def)
  ultimately show ?thesis using sel(2,3) by blast
qed

text \<open>The theorem at four one-dimensional points with keys 3, 1, 2, 0 and rank 2.\<close>

theorem partitionIndices_spec_witness:
  "partitionIndices [[3], [1], [2], [0]] [0, 1, 2, 3] 0 4 0 2 = [3, 1, 2, 0] \<and>
   axisValue [[3], [1], [2], [0]] 0 ([3, 1, 2, 0] ! 2) =
     sort (map (axisValue [[3], [1], [2], [0]] 0) (slice [0, 1, 2, 3] 0 4)) ! (2 - 0) \<and>
   axisValue [[3], [1], [2], [0]] 0 ([3, 1, 2, 0] ! 0)
     \<le> axisValue [[3], [1], [2], [0]] 0 ([3, 1, 2, 0] ! 2) \<and>
   axisValue [[3], [1], [2], [0]] 0 ([3, 1, 2, 0] ! 2)
     \<le> axisValue [[3], [1], [2], [0]] 0 ([3, 1, 2, 0] ! 3) \<and>
   mset [3, 1, 2, 0] = mset [0, 1, 2, 3::nat]"
proof -
  let ?pts = "[[3], [1], [2], [0]] :: scalarField list"
  have ev: "partitionIndices ?pts [0, 1, 2, 3] 0 4 0 2 = [3, 1, 2, 0]"
    by (simp add: partitionIndices_def whileLoop.simps partitionPass_def forLoop.simps
          swapAt_def axisValue_def)
  have valid: "\<forall>i \<in> set (slice [0, 1, 2, 3::nat] 0 4). i < length ?pts \<and> 0 < length (?pts ! i)"
    by (simp add: slice_def)
  have h: "(0::nat) \<le> 2" "(2::nat) < 4" "4 \<le> length [0, 1, 2, 3::nat]" by simp_all
  note T = partitionIndices_spec[OF h valid ev[symmetric]]
  have a: "axisValue ?pts 0 ([3, 1, 2, 0] ! 2) =
     sort (map (axisValue ?pts 0) (slice [0, 1, 2, 3] 0 4)) ! (2 - 0)"
    using T by (rule conjunct1)
  have "\<forall>i. 0 \<le> i \<and> i < 2 \<longrightarrow>
      axisValue ?pts 0 ([3, 1, 2, 0] ! i) \<le> axisValue ?pts 0 ([3, 1, 2, 0] ! 2)"
    using T by blast
  from this[rule_format, of 0]
  have b: "axisValue ?pts 0 ([3, 1, 2, 0] ! 0) \<le> axisValue ?pts 0 ([3, 1, 2, 0] ! 2)"
    by simp
  have "\<forall>j. 2 < j \<and> j < 4 \<longrightarrow>
      axisValue ?pts 0 ([3, 1, 2, 0] ! 2) \<le> axisValue ?pts 0 ([3, 1, 2, 0] ! j)"
    using T by blast
  from this[rule_format, of 3]
  have c: "axisValue ?pts 0 ([3, 1, 2, 0] ! 2) \<le> axisValue ?pts 0 ([3, 1, 2, 0] ! 3)"
    by simp
  have d: "mset [3, 1, 2, 0] = mset [0, 1, 2, 3::nat]"
    using T by blast
  show ?thesis using ev a b c d by blast
qed

section \<open>Properties of buildTree and the constructor\<close>

text \<open>
  What the claims say about a tree, as functions on the node type: the point indices a
  tree stores, in the order split index, left subtree, right subtree; the axis of every
  internal node being its depth modulo \<open>k\<close>; the keys of the left subtree being at most
  the key of the split point and those of the right subtree at least it, at every
  internal node; every leaf holding at least one and at most \<open>leafSize\<close> indices.
\<close>

fun indicesOf :: "node \<Rightarrow> nat list" where
  "indicesOf Null = []"
| "indicesOf (Leaf inds) = inds"
| "indicesOf (Internal idx ax l r) = idx # indicesOf l @ indicesOf r"

fun axesCycle :: "nat \<Rightarrow> nat \<Rightarrow> node \<Rightarrow> bool" where
  "axesCycle k d Null = True"
| "axesCycle k d (Leaf inds) = True"
| "axesCycle k d (Internal idx ax l r) =
     (ax = d mod k \<and> axesCycle k (d + 1) l \<and> axesCycle k (d + 1) r)"

fun splitOrdered :: "scalarField list \<Rightarrow> node \<Rightarrow> bool" where
  "splitOrdered pts Null = True"
| "splitOrdered pts (Leaf inds) = True"
| "splitOrdered pts (Internal idx ax l r) =
     ((\<forall>i \<in> set (indicesOf l). axisValue pts ax i \<le> axisValue pts ax idx) \<and>
      (\<forall>j \<in> set (indicesOf r). axisValue pts ax idx \<le> axisValue pts ax j) \<and>
      splitOrdered pts l \<and> splitOrdered pts r)"

fun leavesBounded :: "nat \<Rightarrow> node \<Rightarrow> bool" where
  "leavesBounded leafSize Null = True"
| "leavesBounded leafSize (Leaf inds) = (inds \<noteq> [] \<and> length inds \<le> leafSize)"
| "leavesBounded leafSize (Internal idx ax l r) =
     (leavesBounded leafSize l \<and> leavesBounded leafSize r)"

lemma slice_empty [simp]: "b \<le> a \<Longrightarrow> slice xs a b = []"
  by (simp add: slice_def)

lemma slice_as_map:
  "b \<le> length xs \<Longrightarrow> map (\<lambda>i. xs ! (a + i)) [0..<b - a] = slice xs a b"
  by (intro nth_equalityI) (auto simp: nth_slice)

lemma slice_split:
  assumes "a \<le> m" "m < b" "b \<le> length xs"
  shows "slice xs a b = slice xs a m @ xs ! m # slice xs (m + 1) b"
proof (intro nth_equalityI)
  show "length (slice xs a b) = length (slice xs a m @ xs ! m # slice xs (m + 1) b)"
    using assms by simp
next
  fix i assume "i < length (slice xs a b)"
  then have i: "i < b - a" using assms by simp
  consider "i < m - a" | "i = m - a" | "m - a < i" by linarith
  then show "slice xs a b ! i = (slice xs a m @ xs ! m # slice xs (m + 1) b) ! i"
  proof cases
    case 1
    then show ?thesis using assms i by (simp add: nth_slice nth_append)
  next
    case 2
    then show ?thesis using assms i by (simp add: nth_slice nth_append)
  next
    case 3
    then have "i - (m - a) - 1 < b - (m + 1)" "m + 1 + (i - (m - a) - 1) = a + i"
      using assms i by auto
    then show ?thesis using assms i 3 by (simp add: nth_slice nth_append add.commute)
  qed
qed

lemma permutedWithin_slice_outside:
  assumes "permutedWithin xs ys a b" "b \<le> c" "d \<le> length xs"
  shows "slice ys c d = slice xs c d"
proof -
  have len: "length ys = length xs"
    and out: "\<And>i. i < length xs \<Longrightarrow> b \<le> i \<Longrightarrow> ys ! i = xs ! i"
    using assms(1) by (auto simp: permutedWithin_def)
  show ?thesis using assms(2,3) len out
    by (intro nth_equalityI) (auto simp: nth_slice)
qed

lemma buildTree_invariant:
  assumes "buildTree pts k leafSize indices start end depth = Inr (t, indices')"
    and "end \<le> length indices"
  shows "permutedWithin indices indices' start end \<and>
         mset (indicesOf t) = mset (slice indices start end) \<and>
         axesCycle k depth t \<and> splitOrdered pts t \<and> leavesBounded leafSize t"
  using assms
proof (induction pts k leafSize indices start "end" depth arbitrary: t indices'
        rule: buildTree.induct)
  case (1 pts k leafSize indices start "end" depth)
  note bt = buildTree.simps[of pts k leafSize indices start "end" depth]
  show ?case
  proof (cases "end \<le> start")
    case True
    with "1.prems" show ?thesis by (auto simp: bt permutedWithin_refl)
  next
    case ne: False
    show ?thesis
    proof (cases "end - start \<le> leafSize")
      case True
      with ne "1.prems" have "t = Leaf (slice indices start end)" "indices' = indices"
        by (auto simp: bt slice_as_map)
      moreover have "length (slice indices start end) = end - start"
        using "1.prems"(2) by simp
      then have "slice indices start end \<noteq> []" using ne by auto
      ultimately show ?thesis using True "1.prems"(2) by (simp add: permutedWithin_refl)
    next
      case big: False
      have k0: "k \<noteq> 0" using "1.prems"(1) ne big by (auto simp: bt split: if_splits)
      define ax where "ax = depth mod k"
      define mid where "mid = start + (end - start) div 2"
      define ind1 where "ind1 = partitionIndices pts indices start end ax mid"
      have mid: "start \<le> mid" "mid < end" using ne by (auto simp: mid_def)
      obtain l ind2 where L: "buildTree pts k leafSize ind1 start mid (depth + 1) = Inr (l, ind2)"
        using "1.prems"(1) ne big k0
        by (auto simp: bt Let_def ax_def mid_def ind1_def split: sum.splits)
      obtain r ind3 where R: "buildTree pts k leafSize ind2 (mid + 1) end (depth + 1) = Inr (r, ind3)"
        using "1.prems"(1) ne big k0 L
        by (auto simp: bt Let_def ax_def mid_def ind1_def split: sum.splits)
      have res: "t = Internal (ind1 ! mid) ax l r" "indices' = ind3"
        using "1.prems"(1) ne big k0 L R
        by (auto simp: bt Let_def ax_def mid_def ind1_def)
      note sel = partitionIndices_select[OF mid "1.prems"(2), of pts ax, folded ind1_def]
      have len1: "length ind1 = length indices" using sel(1) by (simp add: permutedWithin_def)
      have ihL: "permutedWithin ind1 ind2 start mid"
        "mset (indicesOf l) = mset (slice ind1 start mid)"
        "axesCycle k (depth + 1) l" "splitOrdered pts l" "leavesBounded leafSize l"
        using "1.IH"(1)[OF ne big k0 ax_def mid_def ind1_def refl L] mid "1.prems"(2) len1
        by auto
      have len2: "length ind2 = length indices" using ihL(1) len1 by (simp add: permutedWithin_def)
      have ihR: "permutedWithin ind2 ind3 (mid + 1) end"
        "mset (indicesOf r) = mset (slice ind2 (mid + 1) end)"
        "axesCycle k (depth + 1) r" "splitOrdered pts r" "leavesBounded leafSize r"
        using "1.IH"(2)[OF ne big k0 ax_def mid_def ind1_def refl L refl R] "1.prems"(2) len2
        by auto
      have sR: "slice ind2 (mid + 1) end = slice ind1 (mid + 1) end"
        using permutedWithin_slice_outside[OF ihL(1), of "mid + 1" "end"] "1.prems"(2) len1 by simp
      have pL: "permutedWithin ind1 ind2 start end"
        by (rule permutedWithin_mono[OF ihL(1)]) (use mid in auto)
      have pR: "permutedWithin ind2 ind3 start end"
        by (rule permutedWithin_mono[OF ihR(1)]) (use mid in auto)
      have perm: "permutedWithin indices ind3 start end"
        by (rule permutedWithin_trans[OF permutedWithin_trans[OF sel(1) pL] pR])
      have "mset (slice ind1 start end) =
            mset (slice ind1 start mid) + {#ind1 ! mid#} + mset (slice ind1 (mid + 1) end)"
        using slice_split[OF mid, of ind1] "1.prems"(2) len1 by simp
      moreover have "mset (slice ind1 start end) = mset (slice indices start end)"
        using permutedWithin_slice[OF sel(1)] mid "1.prems"(2) by simp
      ultimately have ms: "mset (indicesOf t) = mset (slice indices start end)"
        using res(1) ihL(2) ihR(2) sR by simp
      have "set (indicesOf l) = set (slice ind1 start mid)"
        using ihL(2) by (rule mset_eq_setD)
      moreover have "mid \<le> length ind1" using mid "1.prems"(2) len1 by simp
      ultimately have setL: "set (indicesOf l) = {ind1 ! i | i. start \<le> i \<and> i < mid}"
        by (simp add: set_slice)
      have "set (indicesOf r) = set (slice ind1 (mid + 1) end)"
        using ihR(2) sR mset_eq_setD by metis
      moreover have "end \<le> length ind1" using "1.prems"(2) len1 by simp
      ultimately have setR: "set (indicesOf r) = {ind1 ! i | i. mid + 1 \<le> i \<and> i < end}"
        by (simp add: set_slice)
      have ordL: "\<forall>i \<in> set (indicesOf l). axisValue pts ax i \<le> axisValue pts ax (ind1 ! mid)"
        using sel(2) setL by auto
      have ordR: "\<forall>j \<in> set (indicesOf r). axisValue pts ax (ind1 ! mid) \<le> axisValue pts ax j"
        using sel(3) setR by auto
      show ?thesis
        using perm ms res ihL(3-5) ihR(3-5) ordL ordR by (simp add: ax_def)
    qed
  qed
qed

lemma buildTree_succeeds:
  "k \<noteq> 0 \<Longrightarrow> \<exists>t indices'. buildTree pts k leafSize indices start end depth = Inr (t, indices')"
proof (induction pts k leafSize indices start "end" depth rule: buildTree.induct)
  case (1 pts k leafSize indices start "end" depth)
  note bt = buildTree.simps[of pts k leafSize indices start "end" depth]
  show ?case
  proof (cases "end \<le> start \<or> end - start \<le> leafSize")
    case True
    then show ?thesis by (auto simp: bt)
  next
    case False
    then have ne: "\<not> end \<le> start" and big: "\<not> end - start \<le> leafSize" by auto
    define ax where "ax = depth mod k"
    define mid where "mid = start + (end - start) div 2"
    define ind1 where "ind1 = partitionIndices pts indices start end ax mid"
    obtain l ind2 where L: "buildTree pts k leafSize ind1 start mid (depth + 1) = Inr (l, ind2)"
      using "1.IH"(1)[OF ne big "1.prems" ax_def mid_def ind1_def refl "1.prems"] by blast
    obtain r ind3 where R: "buildTree pts k leafSize ind2 (mid + 1) end (depth + 1) = Inr (r, ind3)"
      using "1.IH"(2)[OF ne big "1.prems" ax_def mid_def ind1_def refl L refl "1.prems"] by blast
    show ?thesis
      using ne big "1.prems" L R by (simp add: bt Let_def ax_def mid_def ind1_def)
  qed
qed

lemma buildTree_zero_dim:
  "start < end \<Longrightarrow> leafSize < end - start \<Longrightarrow>
   buildTree pts 0 leafSize indices start end depth = Inl ModuloByZero"
  by (simp add: buildTree.simps[of pts 0 leafSize indices start "end" depth])

lemma buildTree_root_not_Null:
  assumes "buildTree pts k leafSize indices start end depth = Inr (t, indices')" "start < end"
  shows "t \<noteq> Null"
  using assms
  by (auto simp: buildTree.simps[of pts k leafSize indices start "end" depth] Let_def
      split: if_splits sum.splits)

lemma buildTree_small:
  "start < end \<Longrightarrow> end - start \<le> leafSize \<Longrightarrow>
   buildTree pts k leafSize indices start end depth =
     Inr (Leaf (map (\<lambda>i. indices ! (start + i)) [0..<end - start]), indices)"
  by (simp add: buildTree.simps[of pts k leafSize indices start "end" depth])

lemma buildTree_not_mismatch:
  "buildTree pts k leafSize indices start end depth \<noteq> Inl DimensionMismatch"
proof (cases "k = 0")
  case False
  then show ?thesis
    using buildTree_succeeds[of k pts leafSize indices start "end" depth] by auto
next
  case True
  show ?thesis
    unfolding True
    by (simp add: buildTree.simps[of pts 0 leafSize indices start "end" depth])
qed

lemma KDTree_nonempty:
  "pts \<noteq> [] \<Longrightarrow> KDTree leafSize pts =
     (if \<exists>p \<in> set pts. length p \<noteq> length (pts ! 0) then Inl DimensionMismatch
      else case buildTree pts (length (pts ! 0)) leafSize [0..<length pts] 0 (length pts) 0 of
             Inl e \<Rightarrow> Inl e
           | Inr (t, indices') \<Rightarrow>
               Inr \<lparr>root_ptr = t, points_list = pts, k_dim = length (pts ! 0)\<rparr>)"
  unfolding KDTree_def Let_def by (simp only: if_False)

lemma KDTree_empty:
  "KDTree leafSize [] = Inr \<lparr>root_ptr = Null, points_list = [], k_dim = 0\<rparr>"
  by (simp add: KDTree_def)

lemma KDTree_mismatch:
  "KDTree leafSize pts = Inl DimensionMismatch \<longleftrightarrow> (\<exists>p \<in> set pts. length p \<noteq> length (pts ! 0))"
proof (cases "pts = []")
  case True
  then show ?thesis by (simp add: KDTree_empty)
next
  case ne: False
  define b where "b = buildTree pts (length (pts ! 0)) leafSize [0..<length pts] 0 (length pts) 0"
  note K = KDTree_nonempty[OF ne, of leafSize, folded b_def]
  have nb: "b \<noteq> Inl DimensionMismatch" unfolding b_def by (rule buildTree_not_mismatch)
  show ?thesis
  proof (cases "\<exists>p \<in> set pts. length p \<noteq> length (pts ! 0)")
    case True
    then show ?thesis using K by simp
  next
    case False
    have "KDTree leafSize pts \<noteq> Inl DimensionMismatch"
    proof (cases b)
      case (Inl e)
      then show ?thesis using nb False K by simp
    next
      case (Inr p)
      then show ?thesis using False K by (cases p) simp
    qed
    then show ?thesis using False by simp
  qed
qed

lemma KDTree_Inr:
  assumes "KDTree leafSize pts = Inr t"
  shows "points_list t = pts"
    and "k_dim t = (if pts = [] then 0 else length (pts ! 0))"
    and "\<forall>p \<in> set pts. length p = k_dim t"
    and "root_ptr t = Null \<longleftrightarrow> pts = []"
    and "mset (indicesOf (root_ptr t)) = mset [0..<length pts]"
    and "axesCycle (k_dim t) 0 (root_ptr t)"
    and "splitOrdered pts (root_ptr t)"
    and "leavesBounded leafSize (root_ptr t)"
proof -
  have all: "points_list t = pts \<and> k_dim t = (if pts = [] then 0 else length (pts ! 0)) \<and>
    (\<forall>p \<in> set pts. length p = k_dim t) \<and> (root_ptr t = Null \<longleftrightarrow> pts = []) \<and>
    mset (indicesOf (root_ptr t)) = mset [0..<length pts] \<and>
    axesCycle (k_dim t) 0 (root_ptr t) \<and> splitOrdered pts (root_ptr t) \<and>
    leavesBounded leafSize (root_ptr t)"
  proof (cases "pts = []")
    case True
    then show ?thesis using assms by (auto simp: KDTree_empty)
  next
    case ne: False
    define b where "b = buildTree pts (length (pts ! 0)) leafSize [0..<length pts] 0 (length pts) 0"
    note K = KDTree_nonempty[OF ne, of leafSize, folded b_def]
    have E: "(if \<exists>p \<in> set pts. length p \<noteq> length (pts ! 0) then Inl DimensionMismatch
       else case b of Inl e \<Rightarrow> Inl e
       | Inr (r, indices') \<Rightarrow> Inr \<lparr>root_ptr = r, points_list = pts, k_dim = length (pts ! 0)\<rparr>)
       = Inr t"
      unfolding K[symmetric] by (rule assms)
    have same: "\<forall>p \<in> set pts. length p = length (pts ! 0)"
      using E by (auto split: if_splits)
    then have K': "(case b of Inl e \<Rightarrow> Inl e
       | Inr (r, indices') \<Rightarrow> Inr \<lparr>root_ptr = r, points_list = pts, k_dim = length (pts ! 0)\<rparr>)
       = Inr t"
      using E by (auto split: if_splits)
    then obtain r ind' where b: "b = Inr (r, ind')"
      and t: "t = \<lparr>root_ptr = r, points_list = pts, k_dim = length (pts ! 0)\<rparr>"
      by (cases b) (auto split: prod.splits)
    have sl: "slice [0..<length pts] 0 (length pts) = [0..<length pts]"
      by (simp add: slice_def)
    have inv: "mset (indicesOf r) = mset (slice [0..<length pts] 0 (length pts)) \<and>
         axesCycle (length (pts ! 0)) 0 r \<and> splitOrdered pts r \<and> leavesBounded leafSize r"
      using buildTree_invariant[OF b[unfolded b_def]] by simp
    have "r \<noteq> Null" using buildTree_root_not_Null[OF b[unfolded b_def]] ne by simp
    then have c1: "root_ptr t = Null \<longleftrightarrow> pts = []" using ne by (simp add: t)
    have c2: "points_list t = pts \<and> k_dim t = (if pts = [] then 0 else length (pts ! 0))"
      using ne by (simp add: t)
    have c3: "\<forall>p \<in> set pts. length p = k_dim t" unfolding t using same by simp
    have c4: "mset (indicesOf (root_ptr t)) = mset [0..<length pts] \<and>
      axesCycle (k_dim t) 0 (root_ptr t) \<and> splitOrdered pts (root_ptr t) \<and>
      leavesBounded leafSize (root_ptr t)"
      using inv unfolding sl t by simp
    show ?thesis using c1 c2 c3 c4 by blast
  qed
  then show "points_list t = pts" "k_dim t = (if pts = [] then 0 else length (pts ! 0))"
    "\<forall>p \<in> set pts. length p = k_dim t" "root_ptr t = Null \<longleftrightarrow> pts = []"
    "mset (indicesOf (root_ptr t)) = mset [0..<length pts]"
    "axesCycle (k_dim t) 0 (root_ptr t)" "splitOrdered pts (root_ptr t)"
    "leavesBounded leafSize (root_ptr t)"
    by blast+
qed

lemma KDTree_uniform:
  assumes "pts \<noteq> []" "\<forall>p \<in> set pts. length p = length (pts ! 0)"
  shows "KDTree leafSize pts =
     (case buildTree pts (length (pts ! 0)) leafSize [0..<length pts] 0 (length pts) 0 of
        Inl e \<Rightarrow> Inl e
      | Inr (t, indices') \<Rightarrow>
          Inr \<lparr>root_ptr = t, points_list = pts, k_dim = length (pts ! 0)\<rparr>)"
proof -
  have nomis: "\<not> (\<exists>p \<in> set pts. length p \<noteq> length (pts ! 0))" using assms(2) by blast
  show ?thesis unfolding KDTree_nonempty[OF assms(1)] by (rule if_not_P[OF nomis])
qed

lemma KDTree_succeeds:
  assumes "pts \<noteq> []" "\<forall>p \<in> set pts. length p = length (pts ! 0)"
    and "length (pts ! 0) \<noteq> 0 \<or> length pts \<le> leafSize"
  shows "\<exists>t. KDTree leafSize pts = Inr t"
proof -
  define b where "b = buildTree pts (length (pts ! 0)) leafSize [0..<length pts] 0 (length pts) 0"
  note K = KDTree_uniform[OF assms(1,2), of leafSize, folded b_def]
  have "\<exists>r ind'. b = Inr (r, ind')"
  proof (cases "length (pts ! 0) = 0")
    case False
    then show ?thesis unfolding b_def by (rule buildTree_succeeds)
  next
    case True
    then have "length pts - 0 \<le> leafSize" "0 < length pts" using assms(1,3) by auto
    then show ?thesis unfolding b_def
      using buildTree_small[of 0 "length pts" leafSize pts "length (pts ! 0)" "[0..<length pts]" 0]
      by blast
  qed
  then obtain r ind' where "b = Inr (r, ind')" by blast
  then show ?thesis using K by simp
qed

lemma KDTree_zero_dim:
  assumes "pts \<noteq> []" "\<forall>p \<in> set pts. length p = 0" "leafSize < length pts"
  shows "KDTree leafSize pts = Inl ModuloByZero"
proof -
  have k: "length (pts ! 0) = 0" using assms(1,2) by simp
  have u: "\<forall>p \<in> set pts. length p = length (pts ! 0)" unfolding k by (rule assms(2))
  have "buildTree pts 0 leafSize [0..<length pts] 0 (length pts) 0 = Inl ModuloByZero"
    using assms(1,3) by (intro buildTree_zero_dim) auto
  then show ?thesis
    unfolding KDTree_uniform[OF assms(1) u] k by simp
qed

section \<open>Claims about construction\<close>

text \<open>
  Claim C4. Every call of \<open>buildTree\<close> on a range inside the index array whose indices
  name points of length \<open>k\<close>, at depth \<open>depth\<close>, that returns a node returns a tree in which every internal node has the axis
  \<open>d mod k\<close> of its depth \<open>d\<close>, every index of a left subtree has a key at most the key of
  the split point and every index of a right subtree a key at least it, and whose
  indices (split index, left subtree, right subtree) are, with multiplicities, the
  content of the range the call was given. For the tree of the constructor the indices
  are therefore \<open>0, ..., N-1\<close>, each once.
\<close>

theorem buildTree_tree_invariants:
  "(buildTree pts k leafSize indices start end depth = Inr (t, indices') \<and>
      end \<le> length indices \<and>
      (\<forall>i \<in> set (slice indices start end). i < length pts \<and> length (pts ! i) = k) \<longrightarrow>
      axesCycle k depth t \<and> splitOrdered pts t \<and>
      mset (indicesOf t) = mset (slice indices start end)) \<and>
   (KDTree leafSize pts = Inr T \<longrightarrow>
      axesCycle (k_dim T) 0 (root_ptr T) \<and> splitOrdered pts (root_ptr T) \<and>
      mset (indicesOf (root_ptr T)) = mset [0..<length pts])"
  using buildTree_invariant[of pts k leafSize indices start "end" depth t indices']
    KDTree_Inr(5,6,7)[of leafSize pts T]
  by blast

text \<open>The theorem at four one-dimensional points and \<open>leafSize = 1\<close>.\<close>

theorem buildTree_tree_invariants_witness:
  "buildTree [[3], [1], [2], [0]] 1 1 [0, 1, 2, 3] 0 4 0 =
     Inr (Internal 2 0 (Internal 1 0 (Leaf [3]) Null) (Leaf [0]), [3, 1, 2, 0]) \<and>
   4 \<le> length [0, 1, 2, 3::nat] \<and>
   KDTree 1 [[3], [1], [2], [0]] =
     Inr \<lparr>root_ptr = Internal 2 0 (Internal 1 0 (Leaf [3]) Null) (Leaf [0]),
          points_list = [[3], [1], [2], [0]], k_dim = 1\<rparr> \<and>
   axesCycle 1 0 (Internal 2 0 (Internal 1 0 (Leaf [3]) Null) (Leaf [0])) \<and>
   splitOrdered [[3], [1], [2], [0]] (Internal 2 0 (Internal 1 0 (Leaf [3]) Null) (Leaf [0])) \<and>
   mset (indicesOf (Internal 2 0 (Internal 1 0 (Leaf [3]) Null) (Leaf [0]))) =
     mset (slice [0, 1, 2, 3] 0 4) \<and>
   mset (indicesOf (Internal 2 0 (Internal 1 0 (Leaf [3]) Null) (Leaf [0]))) =
     mset [0..<length [[3], [1], [2], [0::real]]]"
proof -
  let ?pts = "[[3], [1], [2], [0]] :: scalarField list"
  let ?r = "Internal 2 0 (Internal 1 0 (Leaf [3]) Null) (Leaf [0])"
  let ?T = "\<lparr>root_ptr = ?r, points_list = ?pts, k_dim = 1\<rparr>"
  have b: "buildTree ?pts 1 1 [0, 1, 2, 3] 0 4 0 = Inr (?r, [3, 1, 2, 0])"
    by code_simp
  have K: "KDTree 1 ?pts = Inr ?T"
    by code_simp
  have len: "4 \<le> length [0, 1, 2, 3::nat]" by simp
  have valid: "\<forall>i \<in> set (slice [0, 1, 2, 3::nat] 0 4). i < length ?pts \<and> length (?pts ! i) = 1"
    by (simp add: slice_def)
  note T = buildTree_tree_invariants[of ?pts 1 1 "[0, 1, 2, 3]" 0 4 0 ?r "[3, 1, 2, 0]" ?T]
  have 1: "axesCycle 1 0 ?r \<and> splitOrdered ?pts ?r \<and>
      mset (indicesOf ?r) = mset (slice [0, 1, 2, 3] 0 4)"
    using T[THEN conjunct1] b len valid by blast
  have "axesCycle (k_dim ?T) 0 (root_ptr ?T) \<and> splitOrdered ?pts (root_ptr ?T) \<and>
      mset (indicesOf (root_ptr ?T)) = mset [0..<length ?pts]"
    using T[THEN conjunct2] K by blast
  then have 2: "mset (indicesOf ?r) = mset [0..<length ?pts]" by simp
  show ?thesis using b len K 1 2 by blast
qed

text \<open>
  Claim C5. In an iteration of the outer loop of \<open>partitionIndices\<close> (so \<open>left < right\<close>)
  on a range inside the index array whose indices name points that have the axis,
  whatever the keys are, \<open>storeIdx\<close> ends inside \<open>[left, right]\<close>; the range the loop
  continues with, \<open>[left, storeIdx - 1]\<close> or \<open>[storeIdx + 1, right]\<close>, has at least one
  element less than \<open>[left, right]\<close>. The two iterations are total functions of the model (their
  termination is proved where they are defined), and the constructor returns a tree on
  10000 copies of the point \<open>(0.5, 0.5, 0.5)\<close>, for every \<open>leafSize\<close>.
\<close>

theorem partitionIndices_progress:
  assumes "lft < rgt" "rgt < length indices"
    and "\<forall>i \<in> set (slice indices lft (rgt + 1)). i < length pts \<and> ax < length (pts ! i)"
    and "partitionPass pts ax indices lft rgt = (indices', storeIdx)"
  shows "lft \<le> storeIdx \<and> storeIdx \<le> rgt \<and>
         (k < storeIdx \<longrightarrow> (storeIdx - 1) + 1 - lft < rgt + 1 - lft) \<and>
         (storeIdx < k \<longrightarrow> rgt + 1 - (storeIdx + 1) < rgt + 1 - lft) \<and>
         (\<exists>t. KDTree leafSize (replicate 10000 [1 / 2, 1 / 2, 1 / 2]) = Inr t)"
proof -
  have s: "lft \<le> storeIdx" "storeIdx \<le> rgt"
    using partitionPass_storeIdx[OF assms(4)] assms(1) by auto
  let ?pts = "replicate 10000 [1 / 2, 1 / 2, 1 / 2 :: real]"
  have "?pts \<noteq> []" "\<forall>p \<in> set ?pts. length p = length (?pts ! 0)" "length (?pts ! 0) \<noteq> 0"
    by simp_all
  then have "\<exists>t. KDTree leafSize ?pts = Inr t"
    by (intro KDTree_succeeds) auto
  then show ?thesis using s assms(1) by auto
qed

text \<open>The theorem at four equal keys, where the pass ends with \<open>storeIdx = left\<close>.\<close>

theorem partitionIndices_progress_witness:
  "(0::nat) < 3 \<and> 3 < length [0, 1, 2, 3::nat] \<and>
   partitionPass [[1], [1], [1], [1]] 0 [0, 1, 2, 3] 0 3 = ([1, 3, 2, 0], 0) \<and>
   (0::nat) \<le> 0 \<and> (0::nat) \<le> 3 \<and> 3 + 1 - ((0::nat) + 1) < 3 + 1 - 0 \<and>
   (\<exists>t. KDTree 4 (replicate 10000 [1 / 2, 1 / 2, 1 / 2]) = Inr t)"
proof -
  let ?pts = "[[1], [1], [1], [1]] :: scalarField list"
  have p: "partitionPass ?pts 0 [0, 1, 2, 3] 0 3 = ([1, 3, 2, 0], 0)"
    by code_simp
  have l: "(0::nat) < 3" "3 < length [0, 1, 2, 3::nat]" by simp_all
  have valid: "\<forall>i \<in> set (slice [0, 1, 2, 3::nat] 0 (3 + 1)). i < length ?pts \<and> 0 < length (?pts ! i)"
    by (simp add: slice_def)
  note T = partitionIndices_progress[OF l valid p, of 2 4]
  have "\<exists>t. KDTree 4 (replicate 10000 [1 / 2, 1 / 2, 1 / 2]) = Inr t"
    using T by blast
  then show ?thesis using p by simp
qed

text \<open>
  Claim C10. If there is at least one point, every point has length zero and there are
  more points than \<open>leafSize\<close>, the constructor passes its dimension check and
  \<open>buildTree\<close> evaluates \<open>depth % k_\<close> with \<open>k_ = 0\<close>.
\<close>

theorem KDTree_zero_dimension:
  assumes "pts \<noteq> []" "\<forall>p \<in> set pts. length p = 0" "leafSize < length pts"
  shows "KDTree leafSize pts = Inl ModuloByZero"
  using assms by (rule KDTree_zero_dim)

text \<open>The theorem at three points of length zero and \<open>leafSize = 1\<close>.\<close>

theorem KDTree_zero_dimension_witness:
  "[[], [], []] \<noteq> ([] :: scalarField list) \<and> (1::nat) < length [[], [], [] :: scalarField] \<and>
   KDTree 1 [[], [], []] = Inl ModuloByZero"
proof -
  have a: "[[], [], []] \<noteq> ([] :: scalarField list)" by simp
  have b: "\<forall>p \<in> set [[], [], [] :: scalarField]. length p = 0" by simp
  have c: "(1::nat) < length [[], [], [] :: scalarField]" by simp
  show ?thesis using KDTree_zero_dimension[OF a b c] a c by blast
qed

text \<open>
  Claim C7. For no point the constructor returns the empty index with \<open>k = 0\<close>; on it,
  for every query of any length, \<open>nearest\<close> returns \<open>-1\<close> and \<open>nearestDistSqr\<close> returns
  \<open>GREAT\<close>, and neither raises an error.
\<close>

theorem empty_index_queries:
  "KDTree leafSize [] = Inr \<lparr>root_ptr = Null, points_list = [], k_dim = 0\<rparr> \<and>
   nearest GREAT \<lparr>root_ptr = Null, points_list = [], k_dim = 0\<rparr> q = Inr (- 1) \<and>
   nearestDistSqr GREAT \<lparr>root_ptr = Null, points_list = [], k_dim = 0\<rparr> q = Inr GREAT"
  by (simp add: KDTree_empty nearest_def nearestDistSqr_def)

section \<open>Properties of the search\<close>

text \<open>
  \<open>axesBelow k t\<close>: every internal node of \<open>t\<close> splits on an axis below \<open>k\<close>.
  \<open>bestAmong d S b b'\<close> relates the pair \<open>(bestIndex, bestDistSqr)\<close> before and after a
  part of the search that accounts for the point indices \<open>S\<close>, where \<open>d i\<close> is the squared
  distance of point \<open>i\<close> to the query: the best distance has not grown, it is at most the
  distance of every index of \<open>S\<close>, and the pair is either unchanged or an index of \<open>S\<close>
  with its distance, strictly below the best distance before.
\<close>

fun axesBelow :: "nat \<Rightarrow> node \<Rightarrow> bool" where
  "axesBelow k Null = True"
| "axesBelow k (Leaf inds) = True"
| "axesBelow k (Internal idx ax l r) = (ax < k \<and> axesBelow k l \<and> axesBelow k r)"

definition bestAmong :: "(nat \<Rightarrow> scalar) \<Rightarrow> nat set \<Rightarrow> int \<times> scalar \<Rightarrow> int \<times> scalar \<Rightarrow> bool" where
  "bestAmong d S b b' \<longleftrightarrow>
     snd b' \<le> snd b \<and> (\<forall>i \<in> S. snd b' \<le> d i) \<and>
     (b' = b \<or> (\<exists>i \<in> S. b' = (int i, d i) \<and> d i < snd b))"

lemma fold_add_sum:
  "fold (\<lambda>d s. s + f d) [0..<k] (s0::real) = s0 + (\<Sum>d<k. f d)"
  by (induction k) (simp_all add: algebra_simps)

lemma distSqr_sum: "distSqr k a b = (\<Sum>d<k. (a ! d - b ! d) * (a ! d - b ! d))"
  by (simp add: distSqr_def fold_add_sum)

lemma distSqr_ge_axis:
  assumes "ax < k"
  shows "(a ! ax - b ! ax) * (a ! ax - b ! ax) \<le> distSqr k a b"
proof -
  have "(\<lambda>d. (a ! d - b ! d) * (a ! d - b ! d)) ax \<le> (\<Sum>d\<in>{..<k}. (a ! d - b ! d) * (a ! d - b ! d))"
    using assms by (intro member_le_sum) auto
  then show ?thesis by (simp add: distSqr_sum)
qed

lemma axesCycle_below: "axesCycle k d t \<Longrightarrow> k \<noteq> 0 \<Longrightarrow> axesBelow k t"
  by (induction t arbitrary: d) auto

lemma bestAmong_empty: "bestAmong d {} b b"
  by (simp add: bestAmong_def)

lemma bestAmong_candidate:
  "bestAmong (\<lambda>i. distSqr k (pts ! i) q) {idx} b (candidate pts k q idx b)"
  by (cases b) (auto simp: bestAmong_def candidate_def Let_def)

lemma bestAmong_trans:
  assumes "bestAmong d S b0 b1" "bestAmong d T b1 b2"
  shows "bestAmong d (S \<union> T) b0 b2"
proof -
  have 1: "snd b1 \<le> snd b0" "\<forall>i \<in> S. snd b1 \<le> d i"
    "b1 = b0 \<or> (\<exists>i \<in> S. b1 = (int i, d i) \<and> d i < snd b0)"
    using assms(1) by (auto simp: bestAmong_def)
  have 2: "snd b2 \<le> snd b1" "\<forall>i \<in> T. snd b2 \<le> d i"
    "b2 = b1 \<or> (\<exists>i \<in> T. b2 = (int i, d i) \<and> d i < snd b1)"
    using assms(2) by (auto simp: bestAmong_def)
  have a: "snd b2 \<le> snd b0" using 1(1) 2(1) by simp
  have b: "\<forall>i \<in> S \<union> T. snd b2 \<le> d i" using 1(2) 2(1,2) by force
  have c: "b2 = b0 \<or> (\<exists>i \<in> S \<union> T. b2 = (int i, d i) \<and> d i < snd b0)"
    using 1(1,3) 2(3) by force
  show ?thesis using a b c by (simp add: bestAmong_def)
qed

lemma bestAmong_pruned:
  assumes "bestAmong d S b0 b1" "\<forall>i \<in> T. snd b1 \<le> d i"
  shows "bestAmong d (S \<union> T) b0 b1"
  using assms by (auto simp: bestAmong_def)

lemma bestAmong_fold:
  "bestAmong (\<lambda>i. distSqr k (pts ! i) q) (set inds) b (fold (candidate pts k q) inds b)"
proof (induction inds arbitrary: b)
  case Nil
  show ?case by (simp add: bestAmong_empty)
next
  case (Cons i inds)
  have "bestAmong (\<lambda>i. distSqr k (pts ! i) q) ({i} \<union> set inds) b
          (fold (candidate pts k q) inds (candidate pts k q i b))"
    by (rule bestAmong_trans[OF bestAmong_candidate Cons.IH])
  then show ?case by simp
qed

text \<open>
  The pruning test: a point on the far side of the splitting plane is at least as far
  from the query along the split axis as the plane is.
\<close>

lemma far_side_bound:
  fixes qa sa pa :: real
  assumes "(qa - sa < 0 \<and> sa \<le> pa) \<or> (\<not> qa - sa < 0 \<and> pa \<le> sa)"
  shows "(qa - sa) * (qa - sa) \<le> (pa - qa) * (pa - qa)"
proof -
  have "\<bar>qa - sa\<bar> \<le> \<bar>pa - qa\<bar>" using assms by auto
  then have "\<bar>qa - sa\<bar> * \<bar>qa - sa\<bar> \<le> \<bar>pa - qa\<bar> * \<bar>pa - qa\<bar>"
    by (intro mult_mono) auto
  then show ?thesis by simp
qed

lemma nearestSearch_bestAmong:
  assumes "splitOrdered pts t" "axesBelow k t"
  shows "bestAmong (\<lambda>i. distSqr k (pts ! i) q) (set (indicesOf t)) b (nearestSearch pts k t q b)"
  using assms
proof (induction t arbitrary: b)
  case Null
  show ?case by (simp add: bestAmong_empty)
next
  case (Leaf inds)
  show ?case by (simp add: bestAmong_fold)
next
  case (Internal idx ax l r)
  let ?d = "\<lambda>i. distSqr k (pts ! i) q"
  define best1 where "best1 = candidate pts k q idx b"
  define diff where "diff = q ! ax - pts ! idx ! ax"
  define near where "near = (if diff < 0 then l else r)"
  define far where "far = (if diff < 0 then r else l)"
  define best2 where "best2 = (if near \<noteq> Null then nearestSearch pts k near q best1 else best1)"
  have res: "nearestSearch pts k (Internal idx ax l r) q b =
      (if far \<noteq> Null \<and> diff * diff < snd best2 then nearestSearch pts k far q best2 else best2)"
    by (simp add: Let_def best1_def diff_def near_def far_def best2_def)
  have ax: "ax < k" using Internal.prems(2) by simp
  have ordL: "\<forall>i \<in> set (indicesOf l). pts ! i ! ax \<le> pts ! idx ! ax"
    and ordR: "\<forall>j \<in> set (indicesOf r). pts ! idx ! ax \<le> pts ! j ! ax"
    using Internal.prems(1) by (auto simp: axisValue_def)
  have ihl: "\<And>b. bestAmong ?d (set (indicesOf l)) b (nearestSearch pts k l q b)"
    using Internal.IH(1) Internal.prems by simp
  have ihr: "\<And>b. bestAmong ?d (set (indicesOf r)) b (nearestSearch pts k r q b)"
    using Internal.IH(2) Internal.prems by simp
  have ihnear: "\<And>b. bestAmong ?d (set (indicesOf near)) b (nearestSearch pts k near q b)"
    using ihl ihr by (simp add: near_def)
  have ihfar: "\<And>b. bestAmong ?d (set (indicesOf far)) b (nearestSearch pts k far q b)"
    using ihl ihr by (simp add: far_def)
  have s1: "bestAmong ?d {idx} b best1"
    unfolding best1_def by (rule bestAmong_candidate)
  have s2': "bestAmong ?d (set (indicesOf near)) best1 best2"
  proof (cases "near = Null")
    case True
    then show ?thesis by (simp add: best2_def bestAmong_empty)
  next
    case False
    then show ?thesis using ihnear by (simp add: best2_def)
  qed
  have s2: "bestAmong ?d ({idx} \<union> set (indicesOf near)) b best2"
    by (rule bestAmong_trans[OF s1 s2'])
  have farbound: "\<forall>i \<in> set (indicesOf far). diff * diff \<le> ?d i"
  proof
    fix i assume i: "i \<in> set (indicesOf far)"
    have "(diff < 0 \<and> pts ! idx ! ax \<le> pts ! i ! ax) \<or> (\<not> diff < 0 \<and> pts ! i ! ax \<le> pts ! idx ! ax)"
      using i ordL ordR by (auto simp: far_def split: if_splits)
    then have "diff * diff \<le> (pts ! i ! ax - q ! ax) * (pts ! i ! ax - q ! ax)"
      unfolding diff_def by (rule far_side_bound)
    also have "\<dots> \<le> ?d i" by (rule distSqr_ge_axis[OF ax])
    finally show "diff * diff \<le> ?d i" .
  qed
  have s3: "bestAmong ?d (({idx} \<union> set (indicesOf near)) \<union> set (indicesOf far)) b
      (nearestSearch pts k (Internal idx ax l r) q b)"
  proof (cases "far \<noteq> Null \<and> diff * diff < snd best2")
    case True
    have "nearestSearch pts k (Internal idx ax l r) q b = nearestSearch pts k far q best2"
      unfolding res using True by simp
    then show ?thesis using bestAmong_trans[OF s2 ihfar] by simp
  next
    case False
    have "\<forall>i \<in> set (indicesOf far). snd best2 \<le> ?d i"
    proof (cases "far = Null")
      case True
      then show ?thesis by simp
    next
      case nn: False
      then have "snd best2 \<le> diff * diff" using False by simp
      then show ?thesis using farbound by force
    qed
    then have "bestAmong ?d (({idx} \<union> set (indicesOf near)) \<union> set (indicesOf far)) b best2"
      by (rule bestAmong_pruned[OF s2])
    moreover have "nearestSearch pts k (Internal idx ax l r) q b = best2"
      unfolding res using False by auto
    ultimately show ?thesis by simp
  qed
  have "({idx} \<union> set (indicesOf near)) \<union> set (indicesOf far) = set (indicesOf (Internal idx ax l r))"
    by (auto simp: near_def far_def)
  then show ?case using s3 by simp
qed

lemma buildTree_zero_axes:
  assumes "buildTree pts 0 leafSize indices start end depth = Inr (t, indices')"
  shows "axesBelow 0 t"
  using assms
  by (auto simp: buildTree.simps[of pts 0 leafSize indices start "end" depth] split: if_splits)

lemma KDTree_axesBelow:
  assumes "KDTree leafSize pts = Inr t"
  shows "axesBelow (k_dim t) (root_ptr t)"
proof (cases "pts = []")
  case True
  then show ?thesis using assms by (auto simp: KDTree_empty)
next
  case ne: False
  show ?thesis
  proof (cases "k_dim t = 0")
    case False
    then show ?thesis using KDTree_Inr(6)[OF assms] by (intro axesCycle_below)
  next
    case True
    have k: "length (pts ! 0) = 0" using KDTree_Inr(2)[OF assms] ne True by simp
    have u: "\<forall>p \<in> set pts. length p = length (pts ! 0)"
      using KDTree_Inr(3)[OF assms] unfolding True k .
    define b where "b = buildTree pts 0 leafSize [0..<length pts] 0 (length pts) 0"
    have K: "(case b of Inl e \<Rightarrow> Inl e
       | Inr (r, indices') \<Rightarrow> Inr \<lparr>root_ptr = r, points_list = pts, k_dim = 0\<rparr>) = Inr t"
      using KDTree_uniform[OF ne u, of leafSize] assms unfolding k b_def by simp
    then obtain r ind' where b: "b = Inr (r, ind')" and t: "root_ptr t = r"
      by (cases b) (auto split: prod.splits)
    show ?thesis using buildTree_zero_axes[OF b[unfolded b_def]] True t by simp
  qed
qed

lemma KDTree_search:
  assumes "KDTree leafSize pts = Inr t"
  shows "bestAmong (\<lambda>i. distSqr (k_dim t) (pts ! i) q) {0..<length pts} b
           (nearestSearch pts (k_dim t) (root_ptr t) q b)"
proof -
  have "set (indicesOf (root_ptr t)) = set [0..<length pts]"
    using KDTree_Inr(5)[OF assms] by (rule mset_eq_setD)
  then have "set (indicesOf (root_ptr t)) = {0..<length pts}" by simp
  then show ?thesis
    using nearestSearch_bestAmong[OF KDTree_Inr(7)[OF assms] KDTree_axesBelow[OF assms], of q b]
    by simp
qed

lemma bruteNearest_fold:
  "bruteNearest G pts q = fold (candidate pts (length q) q) [0..<length pts] (- 1, G)"
proof -
  have "(\<lambda>i (idx, bestD2).
           let d2 = fold (\<lambda>d d2. d2 + (pts ! i ! d - q ! d) * (pts ! i ! d - q ! d))
                         [0..<length q] 0
           in if d2 < bestD2 then (int i, d2) else (idx, bestD2)) = candidate pts (length q) q"
    by (intro ext) (auto simp: candidate_def distSqr_def Let_def)
  then show ?thesis by (simp add: bruteNearest_def)
qed

lemma bruteNearest_bestAmong:
  "bestAmong (\<lambda>i. distSqr (length q) (pts ! i) q) {0..<length pts} (- 1, G) (bruteNearest G pts q)"
  using bestAmong_fold[of "length q" pts q "[0..<length pts]" "(- 1, G)"]
  by (simp add: bruteNearest_fold)

lemma bestAmong_Min:
  assumes "finite S" "bestAmong d S (i0, G) b'"
  shows "snd b' = Min (insert G (d ` S))"
proof -
  have "snd b' \<in> insert G (d ` S)" using assms(2) by (auto simp: bestAmong_def)
  moreover have "\<forall>y \<in> insert G (d ` S). snd b' \<le> y" using assms(2) by (auto simp: bestAmong_def)
  ultimately show ?thesis using assms(1) by (intro Min_eqI[symmetric]) auto
qed

lemma bestAmong_index:
  assumes "bestAmong d S (- 1, G) b'"
  shows "(b' = (- 1, G) \<and> (\<forall>i \<in> S. G \<le> d i)) \<or> (\<exists>i \<in> S. b' = (int i, d i) \<and> d i < G)"
  using assms by (auto simp: bestAmong_def)

lemma image_dist_points:
  "(\<lambda>i. f (pts ! i)) ` {0..<length pts} = f ` set pts"
proof -
  have "set pts = (\<lambda>i. pts ! i) ` {0..<length pts}"
    by (auto simp: set_conv_nth)
  then show ?thesis by (simp add: image_image)
qed

section \<open>Claims about the queries\<close>

lemma query_results:
  fixes GREAT :: scalar
  assumes "KDTree leafSize pts = Inr t" "length q = k_dim t"
  defines "b \<equiv> (if pts = [] then (- 1, GREAT)
                 else nearestSearch pts (k_dim t) (root_ptr t) q (- 1, GREAT))"
  shows "nearest GREAT t q = Inr (fst b)" and "nearestDistSqr GREAT t q = Inr (snd b)"
    and "bestAmong (\<lambda>i. distSqr (k_dim t) (pts ! i) q) {0..<length pts} (- 1, GREAT) b"
proof -
  note I = KDTree_Inr[OF assms(1)]
  show "nearest GREAT t q = Inr (fst b)" "nearestDistSqr GREAT t q = Inr (snd b)"
    using I(1,4) assms(2) by (auto simp: nearest_def nearestDistSqr_def b_def)
  show "bestAmong (\<lambda>i. distSqr (k_dim t) (pts ! i) q) {0..<length pts} (- 1, GREAT) b"
  proof (cases "pts = []")
    case True
    then show ?thesis by (simp add: b_def bestAmong_empty)
  next
    case False
    then show ?thesis using KDTree_search[OF assms(1)] by (simp add: b_def)
  qed
qed

text \<open>
  Claim C1, as amended. For every point set on which the constructor returns an index
  and every query of length \<open>k\<close>, \<open>nearestDistSqr\<close> returns what the exhaustive scan
  \<open>bruteNearest\<close> of the test program computes, which is the smaller of \<open>GREAT\<close> and the
  minimum over the points of the squared distance to the query; when some point lies
  at a squared distance below \<open>GREAT\<close> this is the minimum over the points.
\<close>

theorem nearestDistSqr_exhaustive:
  assumes "KDTree leafSize pts = Inr t" "length q = k_dim t"
  shows "nearestDistSqr GREAT t q = Inr (snd (bruteNearest GREAT pts q)) \<and>
         snd (bruteNearest GREAT pts q) =
           Min (insert GREAT ((\<lambda>p. distSqr (k_dim t) p q) ` set pts)) \<and>
         ((\<exists>p \<in> set pts. distSqr (k_dim t) p q < GREAT) \<longrightarrow>
            nearestDistSqr GREAT t q = Inr (Min ((\<lambda>p. distSqr (k_dim t) p q) ` set pts)))"
proof -
  let ?d = "\<lambda>i. distSqr (k_dim t) (pts ! i) q"
  let ?A = "(\<lambda>p. distSqr (k_dim t) p q) ` set pts"
  note Q = query_results[OF assms, of GREAT]
  have img: "?d ` {0..<length pts} = ?A" by (rule image_dist_points)
  have fin: "finite {0..<length pts}" by simp
  define b where "b = (if pts = [] then (- 1, GREAT)
                 else nearestSearch pts (k_dim t) (root_ptr t) q (- 1, GREAT))"
  have "snd b = Min (insert GREAT (?d ` {0..<length pts}))"
    unfolding b_def by (rule bestAmong_Min[OF fin Q(3)])
  then have sb: "snd b = Min (insert GREAT ?A)" unfolding img .
  have kd: "nearestDistSqr GREAT t q = Inr (Min (insert GREAT ?A))"
    using Q(2)[folded b_def] sb by (simp only:)
  have "snd (bruteNearest GREAT pts q) =
      Min (insert GREAT ((\<lambda>i. distSqr (length q) (pts ! i) q) ` {0..<length pts}))"
    by (rule bestAmong_Min[OF fin bruteNearest_bestAmong])
  then have bf: "snd (bruteNearest GREAT pts q) = Min (insert GREAT ?A)"
    unfolding assms(2) img .
  have M: "Min (insert GREAT ?A) = Min ?A" if H: "\<exists>p \<in> set pts. distSqr (k_dim t) p q < GREAT"
  proof -
    obtain p where p: "p \<in> set pts" "distSqr (k_dim t) p q < GREAT" using H by blast
    have mem: "distSqr (k_dim t) p q \<in> ?A" using p(1) by (rule imageI)
    have fA: "finite ?A" by simp
    have "Min ?A \<le> distSqr (k_dim t) p q" using fA mem by (rule Min_le)
    then have "Min ?A \<le> GREAT" using p(2) by linarith
    then have "min GREAT (Min ?A) = Min ?A" by (rule min_absorb2)
    moreover have "?A \<noteq> {}" using p(1) by auto
    then have "Min (insert GREAT ?A) = min GREAT (Min ?A)" using fA by (rule Min_insert[rotated])
    ultimately show ?thesis by (rule trans[rotated])
  qed
  show ?thesis
  proof (intro conjI impI)
    show "nearestDistSqr GREAT t q = Inr (snd (bruteNearest GREAT pts q))"
      unfolding kd bf by (rule refl)
    show "snd (bruteNearest GREAT pts q) = Min (insert GREAT ?A)" by (rule bf)
    assume "\<exists>p \<in> set pts. distSqr (k_dim t) p q < GREAT"
    then show "nearestDistSqr GREAT t q = Inr (Min ?A)" unfolding kd by (simp only: M)
  qed
qed

text \<open>The theorem at four one-dimensional points, the query 5 and \<open>GREAT = 100\<close>.\<close>

theorem nearestDistSqr_exhaustive_witness:
  "KDTree 1 [[3], [1], [2], [0]] =
     Inr \<lparr>root_ptr = Internal 2 0 (Internal 1 0 (Leaf [3]) Null) (Leaf [0]),
          points_list = [[3], [1], [2], [0]], k_dim = 1\<rparr> \<and>
   nearestDistSqr 100 \<lparr>root_ptr = Internal 2 0 (Internal 1 0 (Leaf [3]) Null) (Leaf [0]),
          points_list = [[3], [1], [2], [0]], k_dim = 1\<rparr> [5] = Inr 4 \<and>
   snd (bruteNearest 100 [[3], [1], [2], [0]] [5]) = 4"
proof -
  let ?pts = "[[3], [1], [2], [0]] :: scalarField list"
  let ?T = "\<lparr>root_ptr = Internal 2 0 (Internal 1 0 (Leaf [3]) Null) (Leaf [0]),
          points_list = ?pts, k_dim = 1\<rparr>"
  have K: "KDTree 1 ?pts = Inr ?T" by code_simp
  have len: "length [5::real] = k_dim ?T" by simp
  have bf: "snd (bruteNearest 100 ?pts [5]) = 4" by code_simp
  have "nearestDistSqr 100 ?T [5] = Inr (snd (bruteNearest 100 ?pts [5]))"
    using nearestDistSqr_exhaustive[OF K len, of 100] by (rule conjunct1)
  then show ?thesis using K bf by simp
qed

text \<open>
  Whatever real number \<open>GREAT\<close> is, some query is too far from a point for the search to
  accept it: the single point 0 and the query \<open>\<bar>GREAT\<bar> + 1\<close>.
\<close>

lemma far_query_any_GREAT:
  "nearest GREAT \<lparr>root_ptr = Leaf [0], points_list = [[0]], k_dim = 1\<rparr> [\<bar>GREAT\<bar> + 1] = Inr (- 1) \<and>
   nearestDistSqr GREAT \<lparr>root_ptr = Leaf [0], points_list = [[0]], k_dim = 1\<rparr> [\<bar>GREAT\<bar> + 1]
     = Inr GREAT"
proof -
  define x where "x = (\<bar>GREAT\<bar> + 1) * (\<bar>GREAT\<bar> + 1)"
  have "1 * (\<bar>GREAT\<bar> + 1) \<le> (\<bar>GREAT\<bar> + 1) * (\<bar>GREAT\<bar> + 1)"
    by (intro mult_right_mono) auto
  then have "\<bar>GREAT\<bar> + 1 \<le> x" by (simp add: x_def)
  moreover have "GREAT < \<bar>GREAT\<bar> + 1" by linarith
  ultimately have "\<not> x < GREAT" by linarith
  moreover have "(- \<bar>GREAT\<bar> - 1) * (- \<bar>GREAT\<bar> - 1) = x"
    by (simp add: x_def algebra_simps)
  ultimately show ?thesis
    by (simp add: nearest_def nearestDistSqr_def candidate_def distSqr_def Let_def)
qed

text \<open>
  Claim C1 as stated fails where every point is at a squared distance of \<open>GREAT\<close> or more.
  With \<open>GREAT = 10^15\<close> (the value of the library's double precision constant), the
  single point 0 and the query \<open>10^8\<close>: the minimum squared distance is \<open>10^16\<close> and
  \<open>nearestDistSqr\<close> returns \<open>10^15\<close>.
\<close>

theorem nearestDistSqr_far_query:
  "KDTree 1 [[0]] = Inr \<lparr>root_ptr = Leaf [0], points_list = [[0]], k_dim = 1\<rparr> \<and>
   nearestDistSqr (10 ^ 15) \<lparr>root_ptr = Leaf [0], points_list = [[0]], k_dim = 1\<rparr> [10 ^ 8]
     = Inr (10 ^ 15) \<and>
   Min ((\<lambda>p. distSqr 1 p [10 ^ 8]) ` set [[0]]) = 10 ^ 16 \<and>
   nearestDistSqr (10 ^ 15) \<lparr>root_ptr = Leaf [0], points_list = [[0]], k_dim = 1\<rparr> [10 ^ 8]
     \<noteq> Inr (Min ((\<lambda>p. distSqr 1 p [10 ^ 8]) ` set [[0]]))"
proof -
  have 1: "KDTree 1 [[0]] = Inr \<lparr>root_ptr = Leaf [0], points_list = [[0]], k_dim = 1\<rparr>"
    by code_simp
  have 2: "nearestDistSqr (10 ^ 15) \<lparr>root_ptr = Leaf [0], points_list = [[0]], k_dim = 1\<rparr> [10 ^ 8]
     = Inr (10 ^ 15)"
    by (simp add: nearestDistSqr_def candidate_def distSqr_def)
  have 3: "Min ((\<lambda>p. distSqr 1 p [10 ^ 8]) ` set [[0]]) = 10 ^ 16"
    by (simp add: distSqr_def)
  have 4: "nearestDistSqr (10 ^ 15) \<lparr>root_ptr = Leaf [0], points_list = [[0]], k_dim = 1\<rparr>
      [10 ^ 8] \<noteq> Inr (Min ((\<lambda>p. distSqr 1 p [10 ^ 8]) ` set [[0]]))"
    unfolding 2 3 by simp
  show ?thesis using 1 2 3 4 by blast
qed

lemma query_index_cases:
  fixes GREAT :: scalar
  assumes "KDTree leafSize pts = Inr t" "length q = k_dim t"
  shows "(nearest GREAT t q = Inr (- 1) \<and> nearestDistSqr GREAT t q = Inr GREAT \<and>
          (\<forall>p \<in> set pts. GREAT \<le> distSqr (k_dim t) p q)) \<or>
         (\<exists>i < length pts. nearest GREAT t q = Inr (int i) \<and>
            nearestDistSqr GREAT t q = Inr (distSqr (k_dim t) (pts ! i) q) \<and>
            distSqr (k_dim t) (pts ! i) q < GREAT)"
proof -
  define b where "b = (if pts = [] then (- 1, GREAT)
                 else nearestSearch pts (k_dim t) (root_ptr t) q (- 1, GREAT))"
  note Q = query_results[OF assms, of GREAT, folded b_def]
  let ?d = "\<lambda>i. distSqr (k_dim t) (pts ! i) q"
  from bestAmong_index[OF Q(3)]
  consider (none) "b = (- 1, GREAT)" "\<forall>i \<in> {0..<length pts}. GREAT \<le> ?d i"
    | (some) i where "i \<in> {0..<length pts}" "b = (int i, ?d i)" "?d i < GREAT"
    by blast
  then show ?thesis
  proof cases
    case none
    have "\<forall>p \<in> set pts. GREAT \<le> distSqr (k_dim t) p q"
    proof
      fix p assume "p \<in> set pts"
      then obtain i where "i < length pts" "p = pts ! i" by (auto simp: in_set_conv_nth)
      then show "GREAT \<le> distSqr (k_dim t) p q" using none(2) by simp
    qed
    then show ?thesis using Q(1,2) none(1) by simp
  next
    case some
    then have "i < length pts" by simp
    then show ?thesis using Q(1,2) some(2,3) by auto
  qed
qed

text \<open>
  Claim C2, as amended. For every point set on which the constructor returns an index
  and every query of length \<open>k\<close>, \<open>nearest\<close> and \<open>nearestDistSqr\<close> both return, and on a
  non-empty index their results are the two components of the same \<open>nearestSearch\<close>
  result. If the index returned by \<open>nearest\<close> is not \<open>-1\<close> it is the position of a point
  whose squared distance to the query is the value of \<open>nearestDistSqr\<close>. It is \<open>-1\<close>
  exactly when no point lies at a squared distance below \<open>GREAT\<close> (as for the empty
  point set), and then \<open>nearestDistSqr\<close> returns \<open>GREAT\<close>.
\<close>

theorem nearest_agrees_with_nearestDistSqr:
  assumes "KDTree leafSize pts = Inr t" "length q = k_dim t"
  shows "\<exists>i d. nearest GREAT t q = Inr i \<and> nearestDistSqr GREAT t q = Inr d \<and>
           (pts \<noteq> [] \<longrightarrow> (i, d) = nearestSearch pts (k_dim t) (root_ptr t) q (- 1, GREAT)) \<and>
           (if i = - 1 then d = GREAT \<and> (\<forall>p \<in> set pts. GREAT \<le> distSqr (k_dim t) p q)
            else 0 \<le> i \<and> nat i < length pts \<and> distSqr (k_dim t) (pts ! nat i) q = d \<and>
                 d < GREAT)"
proof -
  define b where "b = (if pts = [] then (- 1, GREAT)
                 else nearestSearch pts (k_dim t) (root_ptr t) q (- 1, GREAT))"
  note Q = query_results[OF assms, of GREAT, folded b_def]
  have same: "pts \<noteq> [] \<longrightarrow> (fst b, snd b) = nearestSearch pts (k_dim t) (root_ptr t) q (- 1, GREAT)"
    by (simp add: b_def)
  from query_index_cases[OF assms, of GREAT]
  have "if fst b = - 1 then snd b = GREAT \<and> (\<forall>p \<in> set pts. GREAT \<le> distSqr (k_dim t) p q)
        else 0 \<le> fst b \<and> nat (fst b) < length pts \<and>
             distSqr (k_dim t) (pts ! nat (fst b)) q = snd b \<and> snd b < GREAT"
    unfolding Q(1,2) by auto
  then show ?thesis using Q(1,2) same by blast
qed

text \<open>
  Claim C8, as amended. On a non-empty index and a query of length \<open>k\<close>, \<open>nearest\<close>
  returns a position of the point sequence when some point lies at a squared distance
  below \<open>GREAT\<close>, and \<open>-1\<close> otherwise.
\<close>

theorem nearest_valid_index:
  assumes "KDTree leafSize pts = Inr t" "pts \<noteq> []" "length q = k_dim t"
  shows "if \<exists>p \<in> set pts. distSqr (k_dim t) p q < GREAT
         then \<exists>i < length pts. nearest GREAT t q = Inr (int i)
         else nearest GREAT t q = Inr (- 1)"
proof (cases "\<exists>p \<in> set pts. distSqr (k_dim t) p q < GREAT")
  case True
  then have "\<not> (\<forall>p \<in> set pts. GREAT \<le> distSqr (k_dim t) p q)" by force
  then have "\<exists>i < length pts. nearest GREAT t q = Inr (int i)"
    using query_index_cases[OF assms(1,3), of GREAT] by blast
  then show ?thesis using True by simp
next
  case False
  have "\<not> (\<exists>i < length pts. distSqr (k_dim t) (pts ! i) q < GREAT)"
    using False nth_mem by blast
  then have "nearest GREAT t q = Inr (- 1)"
    using query_index_cases[OF assms(1,3), of GREAT] by blast
  then show ?thesis using False by simp
qed

text \<open>
  Claim C6, as amended. The constructor ends in \<open>DimensionMismatch\<close> exactly when some
  point has a length other than that of the first point (and then it returns no index).
  A query on an index that the constructor returned ends in \<open>DimensionMismatch\<close> exactly
  when the index is not empty and the length of the query is not \<open>k\<close>.
\<close>

theorem DimensionMismatch_conditions:
  "(KDTree leafSize pts = Inl DimensionMismatch \<longleftrightarrow>
      (\<exists>p \<in> set pts. length p \<noteq> length (pts ! 0))) \<and>
   (KDTree leafSize pts = Inr t \<longrightarrow>
      (nearest GREAT t q = Inl DimensionMismatch \<longleftrightarrow> pts \<noteq> [] \<and> length q \<noteq> k_dim t) \<and>
      (nearestDistSqr GREAT t q = Inl DimensionMismatch \<longleftrightarrow> pts \<noteq> [] \<and> length q \<noteq> k_dim t))"
proof -
  have "(nearest GREAT t q = Inl DimensionMismatch \<longleftrightarrow> pts \<noteq> [] \<and> length q \<noteq> k_dim t) \<and>
      (nearestDistSqr GREAT t q = Inl DimensionMismatch \<longleftrightarrow> pts \<noteq> [] \<and> length q \<noteq> k_dim t)"
    if K: "KDTree leafSize pts = Inr t"
    using KDTree_Inr(4)[OF K] by (auto simp: nearest_def nearestDistSqr_def)
  then show ?thesis using KDTree_mismatch[of leafSize pts] by blast
qed

section \<open>The order of the traversal\<close>

text \<open>
  \<open>visits\<close> lists the point indices that \<open>nearestSearch\<close> tests, in the order in which it
  tests them. It follows the recursion of \<open>nearestSearch\<close> line by line: a leaf tests its
  indices in order; an internal node tests its split index, then what the near branch
  tests, then, if the far branch is searched, what the far branch tests.
\<close>

fun visits :: "scalarField list \<Rightarrow> nat \<Rightarrow> node \<Rightarrow> scalarField \<Rightarrow> int \<times> scalar \<Rightarrow> nat list" where
  "visits pts k Null query best = []"
| "visits pts k (Leaf inds) query best = inds"
| "visits pts k (Internal idx ax l r) query best =
     (let best1 = candidate pts k query idx best;
          diff = query ! ax - pts ! idx ! ax;
          nearBranch = (if diff < 0 then l else r);
          farBranch = (if diff < 0 then r else l);
          best2 = (if nearBranch \<noteq> Null then nearestSearch pts k nearBranch query best1
                   else best1)
      in idx # (if nearBranch \<noteq> Null then visits pts k nearBranch query best1 else [])
           @ (if farBranch \<noteq> Null \<and> diff * diff < snd best2
              then visits pts k farBranch query best2 else []))"

lemma nearestSearch_fold_visits:
  "nearestSearch pts k t q b = fold (candidate pts k q) (visits pts k t q b) b"
proof (induction t arbitrary: b)
  case Null
  show ?case by simp
next
  case (Leaf inds)
  show ?case by simp
next
  case (Internal idx ax l r)
  define best1 where "best1 = candidate pts k q idx b"
  define diff where "diff = q ! ax - pts ! idx ! ax"
  define near where "near = (if diff < 0 then l else r)"
  define far where "far = (if diff < 0 then r else l)"
  define best2 where "best2 = (if near \<noteq> Null then nearestSearch pts k near q best1 else best1)"
  define vs1 where "vs1 = (if near \<noteq> Null then visits pts k near q best1 else [])"
  define vs2 where "vs2 = (if far \<noteq> Null \<and> diff * diff < snd best2
                            then visits pts k far q best2 else [])"
  have res: "nearestSearch pts k (Internal idx ax l r) q b =
      (if far \<noteq> Null \<and> diff * diff < snd best2 then nearestSearch pts k far q best2 else best2)"
    by (simp add: Let_def best1_def diff_def near_def far_def best2_def)
  have vis: "visits pts k (Internal idx ax l r) q b = idx # vs1 @ vs2"
    by (simp add: Let_def best1_def diff_def near_def far_def best2_def vs1_def vs2_def)
  have ihnear: "\<And>b. nearestSearch pts k near q b = fold (candidate pts k q) (visits pts k near q b) b"
    using Internal.IH by (simp add: near_def)
  have ihfar: "\<And>b. nearestSearch pts k far q b = fold (candidate pts k q) (visits pts k far q b) b"
    using Internal.IH by (simp add: far_def)
  have b2: "best2 = fold (candidate pts k q) vs1 best1"
    using ihnear by (simp add: best2_def vs1_def)
  have "nearestSearch pts k (Internal idx ax l r) q b = fold (candidate pts k q) vs2 best2"
    unfolding res using ihfar by (simp add: vs2_def)
  then show ?case unfolding vis b2 by (simp add: best1_def)
qed

lemma candidate_strict:
  "(candidate pts k q idx b \<noteq> b \<longrightarrow> distSqr k (pts ! idx) q < snd b) \<and>
   (snd b \<le> distSqr k (pts ! idx) q \<longrightarrow> candidate pts k q idx b = b)"
  by (auto simp: candidate_def Let_def)

lemma fold_candidate_earliest:
  fixes pts k q
  defines "d \<equiv> \<lambda>i. distSqr k (pts ! i) q"
  shows "snd (fold (candidate pts k q) vs b) \<le> snd b \<and>
     (\<forall>i < length vs. snd (fold (candidate pts k q) vs b) \<le> d (vs ! i)) \<and>
     ((fold (candidate pts k q) vs b = b \<and> (\<forall>i < length vs. snd b \<le> d (vs ! i))) \<or>
      (\<exists>j < length vs. fold (candidate pts k q) vs b = (int (vs ! j), d (vs ! j)) \<and>
           d (vs ! j) < snd b \<and> (\<forall>i < j. d (vs ! j) < d (vs ! i))))"
proof (induction vs rule: rev_induct)
  case Nil
  show ?case by simp
next
  case (snoc x vs)
  define b1 where "b1 = fold (candidate pts k q) vs b"
  have f: "fold (candidate pts k q) (vs @ [x]) b = candidate pts k q x b1"
    by (simp add: b1_def)
  note IH = snoc.IH[folded b1_def]
  have ih1: "snd b1 \<le> snd b" using IH by blast
  have ih2: "\<And>i. i < length vs \<Longrightarrow> snd b1 \<le> d (vs ! i)" using IH by blast
  have nth_old: "\<And>i. i < length vs \<Longrightarrow> (vs @ [x]) ! i = vs ! i" by (simp add: nth_append)
  have nth_new: "(vs @ [x]) ! length vs = x" by simp
  show ?case
  proof (cases "d x < snd b1")
    case True
    then have c: "candidate pts k q x b1 = (int x, d x)"
      by (simp add: candidate_def d_def)
    have 1: "snd (candidate pts k q x b1) \<le> snd b" using c True ih1 by simp
    have 2: "\<forall>i < length (vs @ [x]). snd (candidate pts k q x b1) \<le> d ((vs @ [x]) ! i)"
    proof (intro allI impI)
      fix i assume "i < length (vs @ [x])"
      then consider "i < length vs" | "i = length vs" by fastforce
      then show "snd (candidate pts k q x b1) \<le> d ((vs @ [x]) ! i)"
      proof cases
        case 1
        then show ?thesis using c True ih2[of i] by (simp add: nth_append)
      next
        case 2
        then show ?thesis using c by simp
      qed
    qed
    have 3: "\<exists>j < length (vs @ [x]). candidate pts k q x b1 = (int ((vs @ [x]) ! j), d ((vs @ [x]) ! j)) \<and>
           d ((vs @ [x]) ! j) < snd b \<and> (\<forall>i < j. d ((vs @ [x]) ! j) < d ((vs @ [x]) ! i))"
    proof (intro exI[of _ "length vs"] conjI allI impI)
      show "length vs < length (vs @ [x])" by simp
      show "candidate pts k q x b1 = (int ((vs @ [x]) ! length vs), d ((vs @ [x]) ! length vs))"
        using c by simp
      show "d ((vs @ [x]) ! length vs) < snd b" using True ih1 by simp
      fix i assume "i < length vs"
      then show "d ((vs @ [x]) ! length vs) < d ((vs @ [x]) ! i)"
        using True ih2[of i] by (simp add: nth_append)
    qed
    show ?thesis unfolding f using 1 2 3 by blast
  next
    case False
    then have c: "candidate pts k q x b1 = b1"
      by (simp add: candidate_def d_def)
    have 1: "snd b1 \<le> snd b" by (rule ih1)
    have 2: "\<forall>i < length (vs @ [x]). snd b1 \<le> d ((vs @ [x]) ! i)"
      using False ih2 by (auto simp: nth_append less_Suc_eq)
    from IH consider (same) "b1 = b" "\<forall>i < length vs. snd b \<le> d (vs ! i)"
      | (found) j where "j < length vs" "b1 = (int (vs ! j), d (vs ! j))"
          "d (vs ! j) < snd b" "\<forall>i < j. d (vs ! j) < d (vs ! i)"
      by blast
    then have 3: "(b1 = b \<and> (\<forall>i < length (vs @ [x]). snd b \<le> d ((vs @ [x]) ! i))) \<or>
      (\<exists>j < length (vs @ [x]). b1 = (int ((vs @ [x]) ! j), d ((vs @ [x]) ! j)) \<and>
           d ((vs @ [x]) ! j) < snd b \<and> (\<forall>i < j. d ((vs @ [x]) ! j) < d ((vs @ [x]) ! i)))"
    proof cases
      case same
      then have "\<forall>i < length (vs @ [x]). snd b \<le> d ((vs @ [x]) ! i)"
        using False by (auto simp: nth_append less_Suc_eq)
      then show ?thesis using same(1) by blast
    next
      case found
      have "j < length (vs @ [x])" using found(1) by simp
      moreover have "b1 = (int ((vs @ [x]) ! j), d ((vs @ [x]) ! j))"
        using found(1,2) by (simp add: nth_append)
      moreover have "d ((vs @ [x]) ! j) < snd b" using found(1,3) by (simp add: nth_append)
      moreover have "\<forall>i < j. d ((vs @ [x]) ! j) < d ((vs @ [x]) ! i)"
        using found(1,4) by (auto simp: nth_append)
      ultimately show ?thesis by blast
    qed
    show ?thesis unfolding f c using 1 2 3 by blast
  qed
qed

text \<open>
  The search is the candidate test folded over the visited indices, and the index it
  returns is the first visited one of least distance. Stated for any tree.
\<close>

lemma nearestSearch_earliest:
  "nearestSearch pts k t q b = fold (candidate pts k q) (visits pts k t q b) b \<and>
   (candidate pts k q idx b \<noteq> b \<longrightarrow> distSqr k (pts ! idx) q < snd b) \<and>
   (snd b \<le> distSqr k (pts ! idx) q \<longrightarrow> candidate pts k q idx b = b) \<and>
   ((\<forall>i < length (visits pts k t q b). snd b \<le> distSqr k (pts ! (visits pts k t q b ! i)) q) \<longrightarrow>
      nearestSearch pts k t q b = b) \<and>
   ((\<exists>i < length (visits pts k t q b). distSqr k (pts ! (visits pts k t q b ! i)) q < snd b) \<longrightarrow>
      (\<exists>j < length (visits pts k t q b).
         nearestSearch pts k t q b =
           (int (visits pts k t q b ! j), distSqr k (pts ! (visits pts k t q b ! j)) q) \<and>
         (\<forall>i < j. distSqr k (pts ! (visits pts k t q b ! j)) q
                    < distSqr k (pts ! (visits pts k t q b ! i)) q) \<and>
         (\<forall>i < length (visits pts k t q b).
            distSqr k (pts ! (visits pts k t q b ! j)) q
              \<le> distSqr k (pts ! (visits pts k t q b ! i)) q)))"
proof -
  define vs where "vs = visits pts k t q b"
  define d where "d i = distSqr k (pts ! i) q" for i
  have ns: "nearestSearch pts k t q b = fold (candidate pts k q) vs b"
    unfolding vs_def by (rule nearestSearch_fold_visits)
  note E = fold_candidate_earliest[of pts k q vs b, folded ns, folded d_def]
  have le: "\<And>i. i < length vs \<Longrightarrow> snd (nearestSearch pts k t q b) \<le> d (vs ! i)"
    using E by blast
  from E consider (same) "nearestSearch pts k t q b = b" "\<forall>i < length vs. snd b \<le> d (vs ! i)"
    | (found) j where "j < length vs" "nearestSearch pts k t q b = (int (vs ! j), d (vs ! j))"
        "d (vs ! j) < snd b" "\<forall>i < j. d (vs ! j) < d (vs ! i)"
    by blast
  then have main: "((\<forall>i < length vs. snd b \<le> d (vs ! i)) \<longrightarrow> nearestSearch pts k t q b = b) \<and>
     ((\<exists>i < length vs. d (vs ! i) < snd b) \<longrightarrow>
      (\<exists>j < length vs. nearestSearch pts k t q b = (int (vs ! j), d (vs ! j)) \<and>
         (\<forall>i < j. d (vs ! j) < d (vs ! i)) \<and> (\<forall>i < length vs. d (vs ! j) \<le> d (vs ! i))))"
  proof cases
    case same
    then have "\<not> (\<exists>i < length vs. d (vs ! i) < snd b)" by (auto simp: not_less)
    then show ?thesis using same(1) by blast
  next
    case found
    have "\<forall>i < length vs. d (vs ! j) \<le> d (vs ! i)"
      using le found(2) by simp
    moreover have "\<not> (\<forall>i < length vs. snd b \<le> d (vs ! i))"
      using found(1,3) by (auto simp: not_le)
    ultimately show ?thesis using found by blast
  qed
  note C = candidate_strict[of pts k q idx b]
  show ?thesis
    unfolding vs_def[symmetric]
  proof (intro conjI)
    show "nearestSearch pts k t q b = fold (candidate pts k q) vs b" by (rule ns)
    show "candidate pts k q idx b \<noteq> b \<longrightarrow> distSqr k (pts ! idx) q < snd b"
      by (rule C[THEN conjunct1])
    show "snd b \<le> distSqr k (pts ! idx) q \<longrightarrow> candidate pts k q idx b = b"
      by (rule C[THEN conjunct2])
    show "(\<forall>i < length vs. snd b \<le> distSqr k (pts ! (vs ! i)) q) \<longrightarrow>
      nearestSearch pts k t q b = b"
      using main[THEN conjunct1] unfolding d_def .
    show "(\<exists>i < length vs. distSqr k (pts ! (vs ! i)) q < snd b) \<longrightarrow>
      (\<exists>j < length vs.
         nearestSearch pts k t q b = (int (vs ! j), distSqr k (pts ! (vs ! j)) q) \<and>
         (\<forall>i < j. distSqr k (pts ! (vs ! j)) q < distSqr k (pts ! (vs ! i)) q) \<and>
         (\<forall>i < length vs. distSqr k (pts ! (vs ! j)) q \<le> distSqr k (pts ! (vs ! i)) q))"
      using main[THEN conjunct2] unfolding d_def .
  qed
qed

text \<open>
  Claim C9. On an index that the constructor returned and a query of length \<open>k\<close>,
  \<open>nearestSearch\<close> applies the candidate test to the visited indices in order.
  A candidate replaces the current best only if its squared distance is strictly below
  the current best distance, and a candidate at the current best distance or above
  leaves the best unchanged. Hence: if no visited index is strictly closer than the
  initial best, the initial best is returned; otherwise the index returned is the one
  visited first among the visited indices of least distance (every index visited before
  it is strictly farther, no visited index is closer).
\<close>

theorem nearestSearch_ties:
  fixes b :: "int \<times> scalar"
  assumes "KDTree leafSize pts = Inr T" "length q = k_dim T" "idx < length pts"
  defines "vs \<equiv> visits pts (k_dim T) (root_ptr T) q b"
  shows
  "nearestSearch pts (k_dim T) (root_ptr T) q b = fold (candidate pts (k_dim T) q) vs b \<and>
   (candidate pts (k_dim T) q idx b \<noteq> b \<longrightarrow> distSqr (k_dim T) (pts ! idx) q < snd b) \<and>
   (snd b \<le> distSqr (k_dim T) (pts ! idx) q \<longrightarrow> candidate pts (k_dim T) q idx b = b) \<and>
   ((\<forall>i < length vs. snd b \<le> distSqr (k_dim T) (pts ! (vs ! i)) q) \<longrightarrow>
      nearestSearch pts (k_dim T) (root_ptr T) q b = b) \<and>
   ((\<exists>i < length vs. distSqr (k_dim T) (pts ! (vs ! i)) q < snd b) \<longrightarrow>
      (\<exists>j < length vs.
         nearestSearch pts (k_dim T) (root_ptr T) q b =
           (int (vs ! j), distSqr (k_dim T) (pts ! (vs ! j)) q) \<and>
         (\<forall>i < j. distSqr (k_dim T) (pts ! (vs ! j)) q < distSqr (k_dim T) (pts ! (vs ! i)) q) \<and>
         (\<forall>i < length vs.
            distSqr (k_dim T) (pts ! (vs ! j)) q \<le> distSqr (k_dim T) (pts ! (vs ! i)) q)))"
  unfolding vs_def by (rule nearestSearch_earliest)

text \<open>
  The theorem at seven points of the plane, where the points 4 and 2 are both at squared
  distance 2 from the query and point 4 is visited first.
\<close>

theorem nearestSearch_ties_witness:
  "KDTree 1 [[3, 1], [1, 5], [2, 2], [0, 7], [4, 4], [9, 9], [8, 1]] =
     Inr \<lparr>root_ptr =
            Internal 0 0 (Internal 1 1 (Leaf [2]) (Leaf [3])) (Internal 4 1 (Leaf [6]) (Leaf [5])),
          points_list = [[3, 1], [1, 5], [2, 2], [0, 7], [4, 4], [9, 9], [8, 1]], k_dim = 2\<rparr> \<and>
   visits [[3, 1], [1, 5], [2, 2], [0, 7], [4, 4], [9, 9], [8, 1]] 2
     (Internal 0 0 (Internal 1 1 (Leaf [2]) (Leaf [3])) (Internal 4 1 (Leaf [6]) (Leaf [5])))
     [3, 3] (- 1, 100) = [0, 4, 6, 5, 1, 2] \<and>
   distSqr 2 ([[3, 1], [1, 5], [2, 2], [0, 7], [4, 4], [9, 9], [8, 1]] ! 4) [3, 3] = 2 \<and>
   distSqr 2 ([[3, 1], [1, 5], [2, 2], [0, 7], [4, 4], [9, 9], [8, 1]] ! 2) [3, 3] = 2 \<and>
   nearestSearch [[3, 1], [1, 5], [2, 2], [0, 7], [4, 4], [9, 9], [8, 1]] 2
     (Internal 0 0 (Internal 1 1 (Leaf [2]) (Leaf [3])) (Internal 4 1 (Leaf [6]) (Leaf [5])))
     [3, 3] (- 1, 100) = (4, 2) \<and>
   fold (candidate [[3, 1], [1, 5], [2, 2], [0, 7], [4, 4], [9, 9], [8, 1]] 2 [3, 3])
     [0, 4, 6, 5, 1, 2] (- 1, 100) = (4, 2)"
proof -
  let ?pts = "[[3, 1], [1, 5], [2, 2], [0, 7], [4, 4], [9, 9], [8, 1]] :: scalarField list"
  let ?t = "Internal 0 0 (Internal 1 1 (Leaf [2]) (Leaf [3])) (Internal 4 1 (Leaf [6]) (Leaf [5]))"
  let ?T = "\<lparr>root_ptr = ?t, points_list = ?pts, k_dim = 2\<rparr>"
  have K: "KDTree 1 ?pts = Inr ?T" by code_simp
  have len: "length [3, 3 :: real] = k_dim ?T" by simp
  have idx: "(0::nat) < length ?pts" by simp
  have v: "visits ?pts 2 ?t [3, 3] (- 1, 100) = [0, 4, 6, 5, 1, 2]" by code_simp
  have d4: "distSqr 2 (?pts ! 4) [3, 3] = 2" by code_simp
  have d2: "distSqr 2 (?pts ! 2) [3, 3] = 2" by code_simp
  have n: "nearestSearch ?pts 2 ?t [3, 3] (- 1, 100) = (4, 2)" by code_simp
  have "nearestSearch ?pts (k_dim ?T) (root_ptr ?T) [3, 3] (- 1, 100) =
      fold (candidate ?pts (k_dim ?T) [3, 3])
        (visits ?pts (k_dim ?T) (root_ptr ?T) [3, 3] (- 1, 100)) (- 1, 100)"
    using nearestSearch_ties[OF K len idx, of "(- 1, 100)"] by (rule conjunct1)
  then have "nearestSearch ?pts 2 ?t [3, 3] (- 1, 100) =
      fold (candidate ?pts 2 [3, 3]) (visits ?pts 2 ?t [3, 3] (- 1, 100)) (- 1, 100)"
    by simp
  then have "fold (candidate ?pts 2 [3, 3]) [0, 4, 6, 5, 1, 2] (- 1, 100) = (4, 2)"
    unfolding v n by (rule sym)
  then show ?thesis using K v d4 d2 n by blast
qed

section \<open>Instances\<close>

text \<open>Claim C2's theorem at four one-dimensional points, the query 5 and \<open>GREAT = 100\<close>.\<close>

theorem nearest_agrees_with_nearestDistSqr_witness:
  "KDTree 1 [[3], [1], [2], [0]] =
     Inr \<lparr>root_ptr = Internal 2 0 (Internal 1 0 (Leaf [3]) Null) (Leaf [0]),
          points_list = [[3], [1], [2], [0]], k_dim = 1\<rparr> \<and>
   nearest 100 \<lparr>root_ptr = Internal 2 0 (Internal 1 0 (Leaf [3]) Null) (Leaf [0]),
          points_list = [[3], [1], [2], [0]], k_dim = 1\<rparr> [5] = Inr 0 \<and>
   nearestDistSqr 100 \<lparr>root_ptr = Internal 2 0 (Internal 1 0 (Leaf [3]) Null) (Leaf [0]),
          points_list = [[3], [1], [2], [0]], k_dim = 1\<rparr> [5] =
     Inr (distSqr 1 ([[3], [1], [2], [0]] ! nat 0) [5])"
proof -
  let ?pts = "[[3], [1], [2], [0]] :: scalarField list"
  let ?T = "\<lparr>root_ptr = Internal 2 0 (Internal 1 0 (Leaf [3]) Null) (Leaf [0]),
          points_list = ?pts, k_dim = 1\<rparr>"
  have K: "KDTree 1 ?pts = Inr ?T" by code_simp
  have len: "length [5::real] = k_dim ?T" by simp
  have n: "nearest 100 ?T [5] = Inr 0" by code_simp
  from nearest_agrees_with_nearestDistSqr[OF K len, of 100]
  obtain i d where id: "nearest 100 ?T [5] = Inr i" "nearestDistSqr 100 ?T [5] = Inr d"
    "if i = - 1 then d = 100 \<and> (\<forall>p \<in> set ?pts. 100 \<le> distSqr (k_dim ?T) p [5])
     else 0 \<le> i \<and> nat i < length ?pts \<and> distSqr (k_dim ?T) (?pts ! nat i) [5] = d \<and> d < 100"
    by blast
  have i: "i = 0" using id(1) n by simp
  have "distSqr (k_dim ?T) (?pts ! nat 0) [5] = d" using id(3) unfolding i by simp
  then have "nearestDistSqr 100 ?T [5] = Inr (distSqr 1 (?pts ! nat 0) [5])"
    using id(2) by simp
  then show ?thesis using K n by blast
qed

text \<open>
  Claim C2 as stated fails where \<open>nearest\<close> returns \<open>-1\<close>, which is the position of no
  point: on the empty point set, and on the single point 1 with the query \<open>-10^8\<close> and
  \<open>GREAT = 10^15\<close>.
\<close>

theorem nearest_sentinel_index:
  "KDTree 1 [] = Inr \<lparr>root_ptr = Null, points_list = [], k_dim = 0\<rparr> \<and>
   length ([] :: scalarField) = k_dim \<lparr>root_ptr = Null, points_list = [], k_dim = 0\<rparr> \<and>
   nearest (10 ^ 15) \<lparr>root_ptr = Null, points_list = [], k_dim = 0\<rparr> [] = Inr (- 1) \<and>
   KDTree 1 [[1]] = Inr \<lparr>root_ptr = Leaf [0], points_list = [[1]], k_dim = 1\<rparr> \<and>
   nearest (10 ^ 15) \<lparr>root_ptr = Leaf [0], points_list = [[1]], k_dim = 1\<rparr> [- (10 ^ 8)]
     = Inr (- 1) \<and>
   nearestDistSqr (10 ^ 15) \<lparr>root_ptr = Leaf [0], points_list = [[1]], k_dim = 1\<rparr> [- (10 ^ 8)]
     = Inr (10 ^ 15)"
proof -
  have 1: "KDTree 1 [] = Inr \<lparr>root_ptr = Null, points_list = [], k_dim = 0\<rparr>"
    by (rule KDTree_empty)
  have 2: "nearest (10 ^ 15) \<lparr>root_ptr = Null, points_list = [], k_dim = 0\<rparr> [] = Inr (- 1)"
    by (simp add: nearest_def)
  have 3: "KDTree 1 [[1]] = Inr \<lparr>root_ptr = Leaf [0], points_list = [[1]], k_dim = 1\<rparr>"
    by code_simp
  have 4: "nearest (10 ^ 15) \<lparr>root_ptr = Leaf [0], points_list = [[1]], k_dim = 1\<rparr> [- (10 ^ 8)]
     = Inr (- 1)"
    by (simp add: nearest_def candidate_def distSqr_def)
  have 5: "nearestDistSqr (10 ^ 15) \<lparr>root_ptr = Leaf [0], points_list = [[1]], k_dim = 1\<rparr>
      [- (10 ^ 8)] = Inr (10 ^ 15)"
    by (simp add: nearestDistSqr_def candidate_def distSqr_def)
  show ?thesis using 1 2 3 4 5 by simp
qed

text \<open>Claim C8's theorem at four one-dimensional points, the query 5 and \<open>GREAT = 100\<close>.\<close>

theorem nearest_valid_index_witness:
  "KDTree 1 [[3], [1], [2], [0]] =
     Inr \<lparr>root_ptr = Internal 2 0 (Internal 1 0 (Leaf [3]) Null) (Leaf [0]),
          points_list = [[3], [1], [2], [0]], k_dim = 1\<rparr> \<and>
   [[3], [1], [2], [0]] \<noteq> ([] :: scalarField list) \<and>
   distSqr 1 [3] [5] < 100 \<and>
   (\<exists>i < length [[3], [1], [2], [0::real]].
      nearest 100 \<lparr>root_ptr = Internal 2 0 (Internal 1 0 (Leaf [3]) Null) (Leaf [0]),
          points_list = [[3], [1], [2], [0]], k_dim = 1\<rparr> [5] = Inr (int i))"
proof -
  let ?pts = "[[3], [1], [2], [0]] :: scalarField list"
  let ?T = "\<lparr>root_ptr = Internal 2 0 (Internal 1 0 (Leaf [3]) Null) (Leaf [0]),
          points_list = ?pts, k_dim = 1\<rparr>"
  have K: "KDTree 1 ?pts = Inr ?T" by code_simp
  have ne: "?pts \<noteq> []" by simp
  have len: "length [5::real] = k_dim ?T" by simp
  have d: "distSqr 1 [3] [5] < 100" by (simp add: distSqr_def)
  then have ex: "\<exists>p \<in> set ?pts. distSqr (k_dim ?T) p [5] < 100" by simp
  have "\<exists>i < length ?pts. nearest 100 ?T [5] = Inr (int i)"
    using nearest_valid_index[OF K ne len, of 100] ex by (simp only: if_True)
  then show ?thesis using K ne d by blast
qed

text \<open>
  Claim C8 as stated fails on the index of the single point \<open>(0, 0)\<close> with the query
  \<open>(3 * 10^7, 3 * 10^7)\<close> and \<open>GREAT = 10^15\<close>: the squared distance is \<open>1.8 * 10^15\<close> and
  \<open>nearest\<close> returns \<open>-1\<close> although the index is not empty.
\<close>

theorem nearest_far_query:
  "KDTree 1 [[0, 0]] = Inr \<lparr>root_ptr = Leaf [0], points_list = [[0, 0]], k_dim = 2\<rparr> \<and>
   [[0, 0]] \<noteq> ([] :: scalarField list) \<and>
   length [3 * 10 ^ 7, 3 * 10 ^ 7 :: real]
     = k_dim \<lparr>root_ptr = Leaf [0], points_list = [[0, 0]], k_dim = 2\<rparr> \<and>
   nearest (10 ^ 15) \<lparr>root_ptr = Leaf [0], points_list = [[0, 0]], k_dim = 2\<rparr>
     [3 * 10 ^ 7, 3 * 10 ^ 7] = Inr (- 1)"
proof -
  have 1: "KDTree 1 [[0, 0]] = Inr \<lparr>root_ptr = Leaf [0], points_list = [[0, 0]], k_dim = 2\<rparr>"
    by code_simp
  have 2: "nearest (10 ^ 15) \<lparr>root_ptr = Leaf [0], points_list = [[0, 0]], k_dim = 2\<rparr>
     [3 * 10 ^ 7, 3 * 10 ^ 7] = Inr (- 1)"
    by code_simp
  show ?thesis using 1 2 by simp
qed

text \<open>
  Claim C6's theorem at points of lengths 3, 3, 2, and at a query of length 2 on an
  index of one-dimensional points.
\<close>

theorem DimensionMismatch_conditions_witness:
  "KDTree 1 [[1, 2, 3], [4, 5, 6], [7, 8]] = Inl DimensionMismatch \<and>
   KDTree 1 [[3], [1], [2], [0]] =
     Inr \<lparr>root_ptr = Internal 2 0 (Internal 1 0 (Leaf [3]) Null) (Leaf [0]),
          points_list = [[3], [1], [2], [0]], k_dim = 1\<rparr> \<and>
   nearest 100 \<lparr>root_ptr = Internal 2 0 (Internal 1 0 (Leaf [3]) Null) (Leaf [0]),
          points_list = [[3], [1], [2], [0]], k_dim = 1\<rparr> [1, 2] = Inl DimensionMismatch \<and>
   nearestDistSqr 100 \<lparr>root_ptr = Internal 2 0 (Internal 1 0 (Leaf [3]) Null) (Leaf [0]),
          points_list = [[3], [1], [2], [0]], k_dim = 1\<rparr> [1, 2] = Inl DimensionMismatch"
proof -
  let ?bad = "[[1, 2, 3], [4, 5, 6], [7, 8]] :: scalarField list"
  let ?pts = "[[3], [1], [2], [0]] :: scalarField list"
  let ?T = "\<lparr>root_ptr = Internal 2 0 (Internal 1 0 (Leaf [3]) Null) (Leaf [0]),
          points_list = ?pts, k_dim = 1\<rparr>"
  have mis: "\<exists>p \<in> set ?bad. length p \<noteq> length (?bad ! 0)" by simp
  have a: "KDTree 1 ?bad = Inl DimensionMismatch"
    using DimensionMismatch_conditions[of 1 ?bad ?T 100 "[1, 2]", THEN conjunct1] mis by blast
  have K: "KDTree 1 ?pts = Inr ?T" by code_simp
  have q: "?pts \<noteq> [] \<and> length [1, 2 :: real] \<noteq> k_dim ?T" by simp
  have b: "nearest 100 ?T [1, 2] = Inl DimensionMismatch \<and>
           nearestDistSqr 100 ?T [1, 2] = Inl DimensionMismatch"
    using DimensionMismatch_conditions[of 1 ?pts ?T 100 "[1, 2]", THEN conjunct2] K q by blast
  show ?thesis using a K b by blast
qed

text \<open>
  Claim C6 as stated fails on the empty index: a query of length 3 differs in length
  from \<open>k = 0\<close> and both queries return their sentinel.
\<close>

theorem empty_index_query_length:
  "KDTree 1 [] = Inr \<lparr>root_ptr = Null, points_list = [], k_dim = 0\<rparr> \<and>
   length [1, 2, 3 :: real] \<noteq> k_dim \<lparr>root_ptr = Null, points_list = [], k_dim = 0\<rparr> \<and>
   nearest (10 ^ 15) \<lparr>root_ptr = Null, points_list = [], k_dim = 0\<rparr> [1, 2, 3] = Inr (- 1) \<and>
   nearestDistSqr (10 ^ 15) \<lparr>root_ptr = Null, points_list = [], k_dim = 0\<rparr> [1, 2, 3]
     = Inr (10 ^ 15)"
  by (simp add: KDTree_empty nearest_def nearestDistSqr_def)

end
